theory Spec2Isabelle
  imports Main "HOL-Library.Multiset"
begin

section \<open>Parsed results and stored rows\<close>

text \<open>
  Timestamps are naive local datetimes; they are counted here in whole seconds (the
  summary format carries no fraction), so \<open>timedelta(minutes = m)\<close> is \<open>60 * m\<close>.
  Python floats are kept abstract: the amount type is the parameter \<open>'f\<close>.
  The column \<open>notes\<close> is the field \<open>row_notes\<close>.

  \<open>ParsedTournament\<close> (gg_summary_parser.py) is a record; a row of the table
  \<open>tournament_results\<close> extends it by the columns that the INSERT statement of
  queries.py adds. Columns that the code tests for NULL are options.
\<close>

record 'f ParsedTournament =
  site :: string
  tournament_id :: int
  tournament_start_ts_local :: int
  hero_name :: string
  tournament_name :: "string option"
  game_type :: "string option"
  player_count :: "int option"
  currency :: string
  buy_in_amount :: 'f
  prize_pool_amount :: "'f option"
  payout_amount :: 'f
  profit_amount :: 'f
  finish_place :: "int option"

record 'f tournament_row = "'f ParsedTournament" +
  source_file_name :: string
  source_file_hash :: string
  session_id :: "string option"
  session_start_ts_local :: "int option"
  session_tournament_index :: int
  imported_at :: int
  modified_at :: "int option"
  row_notes :: "string option"

datatype exn = IntegrityError | Exception string

section \<open>The SQL text blocks of db/queries.py\<close>

text \<open>
  A connection is the list of rows it sees, in storage order. \<open>ORDER BY k LIMIT 1\<close>
  returns a row that no other row strictly precedes; among rows with equal keys SQL leaves
  the choice open, and \<open>limit_1\<close> takes the one stored first.
\<close>

fun limit_1 :: "('a \<Rightarrow> 'a \<Rightarrow> bool) \<Rightarrow> 'a list \<Rightarrow> 'a option" where
  "limit_1 precedes [] = None"
| "limit_1 precedes (x # xs) =
     (case limit_1 precedes xs of
        None \<Rightarrow> Some x
      | Some y \<Rightarrow> if precedes y x then Some y else Some x)"

definition SQL_HASH_EXISTS :: "'f tournament_row list \<Rightarrow> string \<Rightarrow> bool" where
  "SQL_HASH_EXISTS conn file_hash =
     (filter (\<lambda>r. source_file_hash r = file_hash) conn \<noteq> [])"

definition prev_within_gap :: "string \<Rightarrow> int \<Rightarrow> int \<Rightarrow> 'f tournament_row \<Rightarrow> bool" where
  "prev_within_gap st ts gap r \<longleftrightarrow>
     site r = st \<and> tournament_start_ts_local r \<le> ts \<and> ts - tournament_start_ts_local r \<le> gap"

definition next_within_gap :: "string \<Rightarrow> int \<Rightarrow> int \<Rightarrow> 'f tournament_row \<Rightarrow> bool" where
  "next_within_gap st ts gap r \<longleftrightarrow>
     site r = st \<and> tournament_start_ts_local r \<ge> ts \<and> tournament_start_ts_local r - ts \<le> gap"

definition SQL_PREV_WITHIN_GAP ::
  "'f tournament_row list \<Rightarrow> string \<Rightarrow> int \<Rightarrow> int \<Rightarrow> 'f tournament_row option" where
  "SQL_PREV_WITHIN_GAP conn st ts gap =
     limit_1 (\<lambda>a b. tournament_start_ts_local a > tournament_start_ts_local b)
       (filter (prev_within_gap st ts gap) conn)"

definition SQL_NEXT_WITHIN_GAP ::
  "'f tournament_row list \<Rightarrow> string \<Rightarrow> int \<Rightarrow> int \<Rightarrow> 'f tournament_row option" where
  "SQL_NEXT_WITHIN_GAP conn st ts gap =
     limit_1 (\<lambda>a b. tournament_start_ts_local a < tournament_start_ts_local b)
       (filter (next_within_gap st ts gap) conn)"

definition in_session :: "string \<Rightarrow> string \<Rightarrow> 'f tournament_row \<Rightarrow> bool" where
  "in_session st sid r \<longleftrightarrow> site r = st \<and> session_id r = Some sid"

definition SQL_COUNT_BEFORE_IN_SESSION ::
  "'f tournament_row list \<Rightarrow> string \<Rightarrow> string \<Rightarrow> int \<Rightarrow> int" where
  "SQL_COUNT_BEFORE_IN_SESSION conn st sid ts =
     int (length (filter (\<lambda>r. in_session st sid r \<and> tournament_start_ts_local r < ts) conn))"

definition shifted_note :: "string option \<Rightarrow> string option" where
  "shifted_note n =
     (case n of
        None \<Rightarrow> Some ''index_shifted''
      | Some s \<Rightarrow> if s = [] then Some ''index_shifted''
                  else Some (s @ '' | '' @ ''index_shifted''))"

definition bump_row :: "int \<Rightarrow> 'f tournament_row \<Rightarrow> 'f tournament_row" where
  "bump_row now r =
     r\<lparr>session_tournament_index := session_tournament_index r + 1,
       modified_at := Some now,
       row_notes := shifted_note (row_notes r)\<rparr>"

definition SQL_BUMP_INDICES_AT_OR_AFTER_TS ::
  "'f tournament_row list \<Rightarrow> string \<Rightarrow> string \<Rightarrow> int \<Rightarrow> int \<Rightarrow> 'f tournament_row list" where
  "SQL_BUMP_INDICES_AT_OR_AFTER_TS conn st sid ts now =
     map (\<lambda>r. if in_session st sid r \<and> tournament_start_ts_local r \<ge> ts
              then bump_row now r else r) conn"

definition SQL_MIN_SESSION_START ::
  "'f tournament_row list \<Rightarrow> string \<Rightarrow> string \<Rightarrow> int option" where
  "SQL_MIN_SESSION_START conn st sid =
     (case map tournament_start_ts_local (filter (in_session st sid) conn) of
        [] \<Rightarrow> None
      | t # ts \<Rightarrow> Some (fold min ts t))"

definition SQL_INSERT_TOURNAMENT ::
  "'f tournament_row list \<Rightarrow> 'f ParsedTournament \<Rightarrow> string \<Rightarrow> string \<Rightarrow>
   string \<Rightarrow> int option \<Rightarrow> int \<Rightarrow> int \<Rightarrow> exn + 'f tournament_row list" where
  "SQL_INSERT_TOURNAMENT conn p file_name file_hash sid sstart sindex now =
     (if SQL_HASH_EXISTS conn file_hash then Inl IntegrityError
      else Inr (conn @
        [ParsedTournament.extend p
           (tournament_row.fields file_name file_hash (Some sid) sstart sindex now None None)]))"

section \<open>importer/session_assigner.py\<close>

text \<open>
  \<open>prev and prev.session_id\<close>: a row was fetched and its session id is neither NULL
  nor empty; the id is then read as a string.
\<close>

definition row_session :: "'f tournament_row option \<Rightarrow> (string \<times> int option) option" where
  "row_session row =
     (case row of
        None \<Rightarrow> None
      | Some r \<Rightarrow>
          (case session_id r of
             None \<Rightarrow> None
           | Some s \<Rightarrow> if s = [] then None else Some (s, session_start_ts_local r)))"

definition find_existing_session_within_gap ::
  "'f tournament_row list \<Rightarrow> string \<Rightarrow> int \<Rightarrow> int \<Rightarrow> string option \<times> int option" where
  "find_existing_session_within_gap conn st ts_local gap_minutes =
     (let gap = 60 * gap_minutes in
      case row_session (SQL_PREV_WITHIN_GAP conn st ts_local gap) of
        Some (sid, sstart) \<Rightarrow> (Some sid, sstart)
      | None \<Rightarrow>
          (case row_session (SQL_NEXT_WITHIN_GAP conn st ts_local gap) of
             Some (sid, sstart) \<Rightarrow> (Some sid, sstart)
           | None \<Rightarrow> (None, None)))"

text \<open>
  \<open>uuid\<close> is the string that \<open>str(uuid.uuid4())\<close> yields in this call and \<open>now\<close> the
  clock of the store. The function returns its triple and the rows as the connection
  sees them afterwards.
\<close>

definition ensure_session_and_index ::
  "'f tournament_row list \<Rightarrow> string \<Rightarrow> int \<Rightarrow> int \<Rightarrow> string \<Rightarrow> int \<Rightarrow>
   (string \<times> int option \<times> int) \<times> 'f tournament_row list" where
  "ensure_session_and_index conn st ts_local gap_minutes uuid now =
     (case find_existing_session_within_gap conn st ts_local gap_minutes of
        (None, _) \<Rightarrow> ((uuid, Some ts_local, 1), conn)
      | (Some sid, session_start) \<Rightarrow>
          (let count_before = SQL_COUNT_BEFORE_IN_SESSION conn st sid ts_local;
               new_index = count_before + 1;
               conn' = SQL_BUMP_INDICES_AT_OR_AFTER_TS conn st sid ts_local now;
               min_start = SQL_MIN_SESSION_START conn' st sid;
               session_start' = (case min_start of Some m \<Rightarrow> Some m | None \<Rightarrow> session_start)
           in ((sid, session_start', new_index), conn')))"

text \<open>
  The first two statements of the transaction in \<open>TournamentImporter.run\<close>: the
  session is assigned and the row is inserted with the triple that came back. The
  connection is left as it was when the INSERT raises (the caller rolls back).
\<close>

definition assign_and_insert ::
  "'f tournament_row list \<Rightarrow> 'f ParsedTournament \<Rightarrow> string \<Rightarrow> string \<Rightarrow> int \<Rightarrow> string \<Rightarrow> int \<Rightarrow>
   exn + 'f tournament_row list" where
  "assign_and_insert conn p file_name file_hash gap_minutes uuid now =
     (case ensure_session_and_index conn (site p) (tournament_start_ts_local p)
             gap_minutes uuid now of
        ((sid, session_start, session_index), conn') \<Rightarrow>
          SQL_INSERT_TOURNAMENT conn' p file_name file_hash sid session_start session_index now)"

section \<open>Sequences of insertions and the session invariant\<close>

record 'f insertion =
  ins_parsed :: "'f ParsedTournament"
  ins_file_name :: string
  ins_file_hash :: string
  ins_gap_minutes :: int
  ins_uuid :: string
  ins_now :: int

definition insert_one :: "'f tournament_row list \<Rightarrow> 'f insertion \<Rightarrow> 'f tournament_row list" where
  "insert_one conn x =
     (case assign_and_insert conn (ins_parsed x) (ins_file_name x) (ins_file_hash x)
             (ins_gap_minutes x) (ins_uuid x) (ins_now x) of
        Inl e \<Rightarrow> conn
      | Inr conn' \<Rightarrow> conn')"

fun insert_all :: "'f tournament_row list \<Rightarrow> 'f insertion list \<Rightarrow> 'f tournament_row list" where
  "insert_all conn [] = conn"
| "insert_all conn (x # xs) = insert_all (insert_one conn x) xs"

text \<open>
  \<open>uuid4\<close> is taken to return an identifier that no stored row carries yet:
  \<open>uuids_fresh\<close> says so of every call of a sequence, at the moment of the call.
\<close>

definition uuid_fresh :: "'f tournament_row list \<Rightarrow> string \<Rightarrow> bool" where
  "uuid_fresh conn uuid \<longleftrightarrow> list_all (\<lambda>r. session_id r \<noteq> Some uuid) conn"

fun uuids_fresh :: "'f tournament_row list \<Rightarrow> 'f insertion list \<Rightarrow> bool" where
  "uuids_fresh conn [] = True"
| "uuids_fresh conn (x # xs) \<longleftrightarrow>
     uuid_fresh conn (ins_uuid x) \<and> uuids_fresh (insert_one conn x) xs"

text \<open>
  The members of a session are the rows that the queries scoped by site and session id
  select. \<open>session_ok\<close> is the invariant of one member list: the ordinal indices are
  pairwise different, they are exactly \<open>1..N\<close>, and a member with a smaller or equal
  index does not start later.
\<close>

definition session_ok :: "'f tournament_row list \<Rightarrow> bool" where
  "session_ok ms \<longleftrightarrow>
     distinct (map session_tournament_index ms) \<and>
     set (map session_tournament_index ms) = {1 .. int (length ms)} \<and>
     (\<forall>a\<in>set ms. \<forall>b\<in>set ms.
        session_tournament_index a \<le> session_tournament_index b \<longrightarrow>
        tournament_start_ts_local a \<le> tournament_start_ts_local b)"

definition session_inv :: "'f tournament_row list \<Rightarrow> bool" where
  "session_inv conn \<longleftrightarrow> (\<forall>st sid. session_ok (filter (in_session st sid) conn))"

section \<open>importer/gg_summary_parser.py\<close>

text \<open>
  What the code takes from Python's runtime is a parameter of the model, gathered in one
  record: \<open>float\<close> on a decimal string, \<open>round(x, 2)\<close> and the subtraction of floats,
  \<open>datetime.strptime\<close> with the format of the summary (\<open>None\<close> where it raises
  ValueError), the seven compiled patterns of \<open>GGSummaryParser\<close> (\<open>search\<close> gives the
  named groups of the first match, \<open>finditer\<close> those of all matches), and
  \<open>sha256_file\<close> of utils/hashing.py, which is not among the sources, as a function of
  the file's content.
\<close>

record 'f runtime =
  to_float :: "string \<Rightarrow> 'f"
  round2 :: "'f \<Rightarrow> 'f"
  fsub :: "'f \<Rightarrow> 'f \<Rightarrow> 'f"
  strptime :: "string \<Rightarrow> int option"
  RE_TOURNAMENT_LINE :: "string \<Rightarrow> (string \<times> string \<times> string) option"
  RE_BUYIN :: "string \<Rightarrow> string option"
  RE_PLAYERS :: "string \<Rightarrow> string option"
  RE_POOL :: "string \<Rightarrow> string option"
  RE_STARTED :: "string \<Rightarrow> string option"
  RE_FINISH :: "string \<Rightarrow> string option"
  RE_PLACEMENT_LINE :: "string \<Rightarrow> (string \<times> string \<times> string) list"
  sha256_file :: "string \<Rightarrow> string"

text \<open>
  Strings are lists of 8-bit characters; \<open>str.strip\<close> and \<open>str.lower\<close> are modelled on
  that range.
\<close>

definition is_space :: "char \<Rightarrow> bool" where
  "is_space c \<longleftrightarrow>
     c \<in> set [CHR '' '', CHR 0x09, CHR 0x0A, CHR 0x0B, CHR 0x0C, CHR 0x0D,
                CHR 0x1C, CHR 0x1D, CHR 0x1E, CHR 0x1F, CHR 0x85, CHR 0xA0]"

definition strip :: "string \<Rightarrow> string" where
  "strip s = rev (dropWhile is_space (rev (dropWhile is_space s)))"

definition is_digit :: "char \<Rightarrow> bool" where
  "is_digit c \<longleftrightarrow> c \<in> set ''0123456789''"

definition lower_char :: "char \<Rightarrow> char" where
  "lower_char c =
     (let n = (of_char c :: nat) in
      if (65 \<le> n \<and> n \<le> 90) \<or> (192 \<le> n \<and> n \<le> 222 \<and> n \<noteq> 215)
      then char_of (n + 32) else c)"

definition lower :: "string \<Rightarrow> string" where
  "lower s = map lower_char s"

definition startswith :: "string \<Rightarrow> string \<Rightarrow> bool" where
  "startswith s p \<longleftrightarrow> take (length p) s = p"

text \<open>\<open>int\<close> on a group that the pattern \<open>\d+\<close> matched.\<close>

definition int_of_digits :: "string \<Rightarrow> int" where
  "int_of_digits s = foldl (\<lambda>n c. 10 * n + (int (of_char c) - 48)) 0 s"

text \<open>\<open>re.fullmatch(r"\d+(\.\d+)?", s)\<close>\<close>

definition fullmatch_decimal :: "string \<Rightarrow> bool" where
  "fullmatch_decimal s =
     (let whole = takeWhile is_digit s; rest = dropWhile is_digit s
      in whole \<noteq> [] \<and>
         (case rest of
            [] \<Rightarrow> True
          | c # frac \<Rightarrow> c = CHR ''.'' \<and> frac \<noteq> [] \<and> list_all is_digit frac))"

definition parse_money_usd :: "'f runtime \<Rightarrow> string \<Rightarrow> 'f option" where
  "parse_money_usd rt token0 =
     (let token = strip token0 in
      if \<not> startswith token ''$'' then None
      else
        (let number_part = strip (filter (\<lambda>c. c \<noteq> CHR '','') (tl token)) in
         if \<not> fullmatch_decimal number_part then None
         else Some (to_float rt number_part)))"

text \<open>
  The loop over the placement lines: \<open>None\<close> when no line names the hero,
  \<open>Some None\<close> when the hero's payout is not a cash amount (the function returns at
  once), \<open>Some (Some x)\<close> for the payout found (\<open>break\<close>).
\<close>

fun hero_payout :: "'f runtime \<Rightarrow> string \<Rightarrow> (string \<times> string \<times> string) list \<Rightarrow> 'f option option" where
  "hero_payout rt hero [] = None"
| "hero_payout rt hero ((place, name0, payout) # pms) =
     (let name = strip name0 in
      if lower name = lower hero
      then (let payout_token = strip payout in Some (parse_money_usd rt payout_token))
      else hero_payout rt hero pms)"

text \<open>
  \<open>GGSummaryParser.parse\<close>: \<open>Inl\<close> is the exception that \<open>strptime\<close> raises on a
  date that the pattern lets through; \<open>Inr\<close> is the pair that the function returns.
\<close>

definition parse ::
  "'f runtime \<Rightarrow> string \<Rightarrow> string \<Rightarrow> exn + ('f ParsedTournament option \<times> string option)" where
  "parse rt site_arg txt =
     (case RE_TOURNAMENT_LINE rt txt of
        None \<Rightarrow> Inr (None, Some ''parse_error:missing_tournament_header'')
      | Some (tid, tname, gtype) \<Rightarrow>
     (case RE_BUYIN rt txt of
        None \<Rightarrow> Inr (None, Some ''parse_error:missing_buy_in'')
      | Some amt \<Rightarrow>
     (case parse_money_usd rt amt of
        None \<Rightarrow> Inr (None, Some ''needs_review:non_cash_buy_in'')
      | Some buy_in \<Rightarrow>
     (let players = map_option int_of_digits (RE_PLAYERS rt txt);
          prize_pool = (case RE_POOL rt txt of None \<Rightarrow> None | Some a \<Rightarrow> parse_money_usd rt a)
      in
     (case RE_STARTED rt txt of
        None \<Rightarrow> Inr (None, Some ''parse_error:missing_start_time'')
      | Some dt \<Rightarrow>
     (case strptime rt dt of
        None \<Rightarrow> Inl (Exception ''ValueError'')
      | Some start_dt \<Rightarrow>
     (let finish = map_option int_of_digits (RE_FINISH rt txt);
          hero = ''Hero''
      in
     (case hero_payout rt hero (RE_PLACEMENT_LINE rt txt) of
        Some None \<Rightarrow> Inr (None, Some ''needs_review:non_cash_payout'')
      | None \<Rightarrow> Inr (None, Some ''parse_error:missing_hero_payout_line'')
      | Some (Some payout) \<Rightarrow>
          Inr (Some
            \<lparr>site = site_arg,
             tournament_id = int_of_digits tid,
             tournament_start_ts_local = start_dt,
             hero_name = hero,
             tournament_name = Some (strip tname),
             game_type = Some (strip gtype),
             player_count = players,
             currency = ''USD'',
             buy_in_amount = round2 rt buy_in,
             prize_pool_amount = map_option (round2 rt) prize_pool,
             payout_amount = round2 rt payout,
             profit_amount = round2 rt (fsub rt payout buy_in),
             finish_place = finish\<rparr>, None)))))))))"

section \<open>importer/file_router.py and importer/tournament_importer.py\<close>

text \<open>
  The files of a run are known by the name they have in the input directory; the file
  system is the map from that name to the folder the file is in (a suffix that
  \<open>safe_move_with_suffix\<close> adds on a name collision changes the name in the target folder
  only). The status and reason of a log record are the strings of the source.
\<close>

datatype folder = InputDir | ProcessedDir | NeedsReviewDir | DuplicateDir

record infile =
  path_name :: string
  content :: string

record 'f event =
  file_name :: string
  file_hash :: "string option"
  status :: "string option"
  reason :: "string option"
  event_tournament_id :: "int option"
  start_time :: "int option"
  buy_in :: "'f option"
  payout :: "'f option"
  timestamp :: "int option"

record import_config =
  config_site :: string
  dry_run :: bool
  session_gap_minutes :: int

record 'f world =
  files :: "string \<Rightarrow> folder option"
  db :: "'f tournament_row list"
  log :: "'f event list"

text \<open>
  What the environment does while one file is handled: which of the calls that can raise
  do raise (\<open>None\<close>: the call succeeds), the identifier that \<open>uuid4\<close> returns and the
  clock. Appending to the log and rolling back are taken not to raise.
\<close>

record env =
  prescan_raises :: "exn option"
  hash_raises :: "exn option"
  lookup_raises :: "exn option"
  read_raises :: "exn option"
  move_raises :: "folder \<Rightarrow> exn option"
  begin_raises :: "exn option"
  statement_raises :: "exn option"
  commit_raises :: "exn option"
  uuid4 :: string
  clock :: int

fun exn_name :: "exn \<Rightarrow> string" where
  "exn_name IntegrityError = ''IntegrityError''"
| "exn_name (Exception n) = n"

definition log_jsonl :: "'f world \<Rightarrow> int \<Rightarrow> 'f event \<Rightarrow> 'f world" where
  "log_jsonl w now payload = w\<lparr>log := log w @ [payload\<lparr>timestamp := Some now\<rparr>]\<rparr>"

definition safe_move_with_suffix ::
  "env \<Rightarrow> (string \<Rightarrow> folder option) \<Rightarrow> string \<Rightarrow> folder \<Rightarrow> exn + (string \<Rightarrow> folder option)" where
  "safe_move_with_suffix e fs src dest_dir =
     (case move_raises e dest_dir of
        Some x \<Rightarrow> Inl x
      | None \<Rightarrow>
          if fs src = Some InputDir then Inr (fs(src \<mapsto> dest_dir))
          else Inl (Exception ''FileNotFoundError''))"

text \<open>A move inside \<open>try: ... except Exception: pass\<close>: the file stays where it is when the move raises.\<close>

definition try_move ::
  "env \<Rightarrow> (string \<Rightarrow> folder option) \<Rightarrow> string \<Rightarrow> folder \<Rightarrow> (string \<Rightarrow> folder option)" where
  "try_move e fs src dest_dir =
     (case safe_move_with_suffix e fs src dest_dir of Inl x \<Rightarrow> fs | Inr fs' \<Rightarrow> fs')"

definition new_event :: "string \<Rightarrow> 'f event" where
  "new_event name =
     \<lparr>file_name = name, file_hash = None, status = None, reason = None,
      event_tournament_id = None, start_time = None, buy_in = None, payout = None,
      timestamp = None\<rparr>"

text \<open>Opening a file of the input directory, to hash it or to read its text.\<close>

definition open_file :: "exn option \<Rightarrow> 'f world \<Rightarrow> infile \<Rightarrow> exn + string" where
  "open_file raises w f =
     (case raises of
        Some x \<Rightarrow> Inl x
      | None \<Rightarrow>
          if files w (path_name f) = Some InputDir then Inr (content f)
          else Inl (Exception ''FileNotFoundError''))"

definition hash_exists :: "env \<Rightarrow> 'f tournament_row list \<Rightarrow> string \<Rightarrow> exn + bool" where
  "hash_exists e conn h =
     (case lookup_raises e of Some x \<Rightarrow> Inl x | None \<Rightarrow> Inr (SQL_HASH_EXISTS conn h))"

text \<open>
  The body of the inner \<open>try\<close>, up to the commit: \<open>Inl\<close> carries the exception and
  the file system at the moment it is raised; the rows are those of before, since both
  handlers roll back.
\<close>

definition insert_move_commit ::
  "import_config \<Rightarrow> env \<Rightarrow> infile \<Rightarrow> string \<Rightarrow> 'f ParsedTournament \<Rightarrow> 'f world \<Rightarrow>
   (exn \<times> (string \<Rightarrow> folder option)) + ((string \<Rightarrow> folder option) \<times> 'f tournament_row list)" where
  "insert_move_commit cfg e f h parsed w =
     (case statement_raises e of
        Some x \<Rightarrow> Inl (x, files w)
      | None \<Rightarrow>
     (case assign_and_insert (db w) parsed (path_name f) h (session_gap_minutes cfg)
             (uuid4 e) (clock e) of
        Inl x \<Rightarrow> Inl (x, files w)
      | Inr conn \<Rightarrow>
     (case safe_move_with_suffix e (files w) (path_name f) ProcessedDir of
        Inl x \<Rightarrow> Inl (x, files w)
      | Inr fs \<Rightarrow>
     (case commit_raises e of
        Some x \<Rightarrow> Inl (x, fs)
      | None \<Rightarrow> Inr (fs, conn)))))"

text \<open>
  The transaction with its two handlers. \<open>Inl\<close>: an exception leaves the block (from
  \<open>begin\<close>, or from the move inside the IntegrityError handler) and reaches the outer
  handler.
\<close>

definition transaction ::
  "import_config \<Rightarrow> env \<Rightarrow> infile \<Rightarrow> string \<Rightarrow> 'f ParsedTournament \<Rightarrow> 'f event \<Rightarrow> 'f world \<Rightarrow>
   (exn \<times> 'f world) + 'f world" where
  "transaction cfg e f h parsed event w =
     (case begin_raises e of
        Some x \<Rightarrow> Inl (x, w)
      | None \<Rightarrow>
     (case insert_move_commit cfg e f h parsed w of
        Inr (fs, conn) \<Rightarrow>
          Inr (log_jsonl (w\<lparr>files := fs, db := conn\<rparr>) (clock e)
                 (event\<lparr>status := Some ''inserted'', reason := Some ''ok''\<rparr>))
      | Inl (IntegrityError, fs) \<Rightarrow>
          (case safe_move_with_suffix e fs (path_name f) DuplicateDir of
             Inl x \<Rightarrow> Inl (x, w\<lparr>files := fs\<rparr>)
           | Inr fs' \<Rightarrow>
               Inr (log_jsonl (w\<lparr>files := fs'\<rparr>) (clock e)
                      (event\<lparr>status := Some ''duplicate'', reason := Some ''unique_conflict''\<rparr>)))
      | Inl (Exception n, fs) \<Rightarrow>
          Inr (log_jsonl (w\<lparr>files := try_move e fs (path_name f) NeedsReviewDir\<rparr>) (clock e)
                 (event\<lparr>status := Some ''error'',
                        reason := Some (''move_failed_or_db_error:'' @ n)\<rparr>))))"

text \<open>A move that dry-run skips.\<close>

definition move_unless_dry_run ::
  "import_config \<Rightarrow> env \<Rightarrow> (string \<Rightarrow> folder option) \<Rightarrow> string \<Rightarrow> folder \<Rightarrow>
   exn + (string \<Rightarrow> folder option)" where
  "move_unless_dry_run cfg e fs src dest_dir =
     (if \<not> dry_run cfg then safe_move_with_suffix e fs src dest_dir else Inr fs)"

text \<open>
  Status and reason of a failed parse:
  \<open>"needs_review" if (reason or "").startswith("needs_review") else "error"\<close> and
  \<open>reason or "unknown_parse_failure"\<close>.
\<close>

definition failure_status :: "string option \<Rightarrow> string" where
  "failure_status why =
     (if startswith (case why of None \<Rightarrow> [] | Some r \<Rightarrow> r) ''needs_review''
      then ''needs_review'' else ''error'')"

definition failure_reason :: "string option \<Rightarrow> string" where
  "failure_reason why =
     (case why of
        None \<Rightarrow> ''unknown_parse_failure''
      | Some r \<Rightarrow> if r = [] then ''unknown_parse_failure'' else r)"

text \<open>The four fields of the event that are filled from the parsed result.\<close>

definition fill_event :: "'f event \<Rightarrow> 'f ParsedTournament \<Rightarrow> 'f event" where
  "fill_event event parsed =
     event\<lparr>event_tournament_id := Some (tournament_id parsed),
           start_time := Some (tournament_start_ts_local parsed),
           buy_in := Some (buy_in_amount parsed),
           payout := Some (payout_amount parsed)\<rparr>"

text \<open>
  The body of the outer \<open>try\<close> from the parse on. \<open>Inl\<close> carries the exception, the
  world and the event dictionary as they are when it is raised.
\<close>

definition parse_and_store ::
  "'f runtime \<Rightarrow> import_config \<Rightarrow> env \<Rightarrow> infile \<Rightarrow> string \<Rightarrow> 'f event \<Rightarrow> 'f world \<Rightarrow>
   (exn \<times> 'f world \<times> 'f event) + 'f world" where
  "parse_and_store rt cfg e f h event w =
     (case open_file (read_raises e) w f of
        Inl x \<Rightarrow> Inl (x, w, event)
      | Inr text_content \<Rightarrow>
     (case parse rt (config_site cfg) text_content of
        Inl x \<Rightarrow> Inl (x, w, event)
      | Inr (None, why) \<Rightarrow>
          (case move_unless_dry_run cfg e (files w) (path_name f) NeedsReviewDir of
             Inl x \<Rightarrow> Inl (x, w, event)
           | Inr fs \<Rightarrow>
               Inr (log_jsonl (w\<lparr>files := fs\<rparr>) (clock e)
                      (event\<lparr>status := Some (failure_status why),
                             reason := Some (failure_reason why)\<rparr>)))
      | Inr (Some parsed, why) \<Rightarrow>
          (let event' = fill_event event parsed
           in if dry_run cfg
              then Inr (log_jsonl w (clock e)
                          (event'\<lparr>status := Some ''dry_run'', reason := Some ''no_db_no_move''\<rparr>))
              else (case transaction cfg e f h parsed event' w of
                      Inl (x, w') \<Rightarrow> Inl (x, w', event')
                    | Inr w' \<Rightarrow> Inr w'))))"

text \<open>The body of the outer \<open>try\<close>: hash, pre-check, then the rest.\<close>

definition attempt_file ::
  "'f runtime \<Rightarrow> import_config \<Rightarrow> env \<Rightarrow> infile \<Rightarrow> 'f event \<Rightarrow> 'f world \<Rightarrow>
   (exn \<times> 'f world \<times> 'f event) + 'f world" where
  "attempt_file rt cfg e f event w =
     (case open_file (hash_raises e) w f of
        Inl x \<Rightarrow> Inl (x, w, event)
      | Inr bytes \<Rightarrow>
     (let h = sha256_file rt bytes;
          event' = event\<lparr>file_hash := Some h\<rparr>
      in
     (case hash_exists e (db w) h of
        Inl x \<Rightarrow> Inl (x, w, event')
      | Inr True \<Rightarrow>
          (case move_unless_dry_run cfg e (files w) (path_name f) DuplicateDir of
             Inl x \<Rightarrow> Inl (x, w, event')
           | Inr fs \<Rightarrow>
               Inr (log_jsonl (w\<lparr>files := fs\<rparr>) (clock e)
                      (event'\<lparr>status := Some ''duplicate'', reason := Some ''hash_exists''\<rparr>)))
      | Inr False \<Rightarrow> parse_and_store rt cfg e f h event' w)))"

text \<open>
  One round of the loop of \<open>TournamentImporter.run\<close>: the \<open>try\<close> and the outer handler
  (the four counters, which only feed the final print, are left out).
\<close>

definition process_file ::
  "'f runtime \<Rightarrow> import_config \<Rightarrow> env \<Rightarrow> infile \<Rightarrow> 'f world \<Rightarrow> 'f world" where
  "process_file rt cfg e f w =
     (case attempt_file rt cfg e f (new_event (path_name f)) w of
        Inr w' \<Rightarrow> w'
      | Inl (x, w', event) \<Rightarrow>
          (let fs = (if \<not> dry_run cfg then try_move e (files w') (path_name f) NeedsReviewDir
                     else files w')
           in log_jsonl (w'\<lparr>files := fs\<rparr>) (clock e)
                (event\<lparr>status := Some ''error'', reason := Some (''fatal:'' @ exn_name x)\<rparr>)))"

text \<open>
  \<open>TournamentImporter.run\<close>. Its argument \<open>fs\<close> is the list that
  \<open>_list_input_files\<close> returns, each file paired with the environment it meets;
  \<open>ensure_dirs\<close> and the final print are left out. Phase 1 and 2: the timestamp of each
  file from a first parse, then a stable sort, oldest first, the files without a timestamp
  last. Phase 3: the loop.
\<close>

definition prescan :: "'f runtime \<Rightarrow> import_config \<Rightarrow> 'f world \<Rightarrow> infile \<times> env \<Rightarrow> int option" where
  "prescan rt cfg w fe =
     (case open_file (prescan_raises (snd fe)) w (fst fe) of
        Inl x \<Rightarrow> None
      | Inr text_content \<Rightarrow>
          (case parse rt (config_site cfg) text_content of
             Inr (Some parsed, why) \<Rightarrow> Some (tournament_start_ts_local parsed)
           | _ \<Rightarrow> None))"

definition file_queue ::
  "'f runtime \<Rightarrow> import_config \<Rightarrow> 'f world \<Rightarrow> (infile \<times> env) list \<Rightarrow> (infile \<times> env) list" where
  "file_queue rt cfg w fs =
     sort_key (\<lambda>fe. the (prescan rt cfg w fe)) (filter (\<lambda>fe. prescan rt cfg w fe \<noteq> None) fs)
     @ filter (\<lambda>fe. prescan rt cfg w fe = None) fs"

fun run_queue ::
  "'f runtime \<Rightarrow> import_config \<Rightarrow> (infile \<times> env) list \<Rightarrow> 'f world \<Rightarrow> 'f world" where
  "run_queue rt cfg [] w = w"
| "run_queue rt cfg (fe # q) w = run_queue rt cfg q (process_file rt cfg (snd fe) (fst fe) w)"

definition run ::
  "'f runtime \<Rightarrow> import_config \<Rightarrow> (infile \<times> env) list \<Rightarrow> 'f world \<Rightarrow> 'f world" where
  "run rt cfg fs w = run_queue rt cfg (file_queue rt cfg w fs) w"

section \<open>Sample data\<close>

text \<open>Sample data for the examples: a result of site GG that starts at \<open>ts\<close>.\<close>

definition sample_result :: "int \<Rightarrow> int ParsedTournament" where
  "sample_result ts =
     \<lparr>site = ''GG'', tournament_id = 1, tournament_start_ts_local = ts, hero_name = ''Hero'',
      tournament_name = None, game_type = None, player_count = None, currency = ''USD'',
      buy_in_amount = 3, prize_pool_amount = None, payout_amount = 0, profit_amount = -3,
      finish_place = None\<rparr>"

definition stored_row :: "string \<Rightarrow> int \<Rightarrow> string \<Rightarrow> int \<Rightarrow> int tournament_row" where
  "stored_row h ts sid idx =
     ParsedTournament.extend (sample_result ts)
       (tournament_row.fields h h (Some sid) (Some ts) idx 0 None None)"

definition sample_insertion :: "int \<Rightarrow> string \<Rightarrow> string \<Rightarrow> int insertion" where
  "sample_insertion ts h uuid =
     \<lparr>ins_parsed = sample_result ts, ins_file_name = h, ins_file_hash = h,
      ins_gap_minutes = 60, ins_uuid = uuid, ins_now = 0\<rparr>"

text \<open>
  A stand-in runtime: the text of a file is its start time in seconds, the text
  \<open>junk\<close> has no tournament header, every summary has a buy-in of 3 dollars and lists a
  player Villain before the hero; the digest of a content is the content itself.
\<close>

definition sample_runtime :: "int runtime" where
  "sample_runtime =
     \<lparr>to_float = int_of_digits, round2 = (\<lambda>x. x), fsub = (\<lambda>a b. a - b),
      strptime = (\<lambda>s. Some (int_of_digits s)),
      RE_TOURNAMENT_LINE = (\<lambda>t. if t = ''junk'' then None else Some (''7'', ''Daily'', ''Holdem'')),
      RE_BUYIN = (\<lambda>t. Some ''$3''),
      RE_PLAYERS = (\<lambda>t. None),
      RE_POOL = (\<lambda>t. None),
      RE_STARTED = (\<lambda>t. Some t),
      RE_FINISH = (\<lambda>t. None),
      RE_PLACEMENT_LINE = (\<lambda>t. [(''1'', ''Villain (EUR)'', ''$10''), (''2'', ''hero'', ''$0'')]),
      sha256_file = (\<lambda>c. c)\<rparr>"

definition no_faults :: "string \<Rightarrow> env" where
  "no_faults uuid =
     \<lparr>prescan_raises = None, hash_raises = None, lookup_raises = None, read_raises = None,
      move_raises = (\<lambda>d. None), begin_raises = None, statement_raises = None,
      commit_raises = None, uuid4 = uuid, clock = 0\<rparr>"

definition sample_config :: "bool \<Rightarrow> import_config" where
  "sample_config dry = \<lparr>config_site = ''GG'', dry_run = dry, session_gap_minutes = 60\<rparr>"

definition input_world :: "string list \<Rightarrow> int world" where
  "input_world names =
     \<lparr>files = (\<lambda>n. if n \<in> set names then Some InputDir else None), db = [], log = []\<rparr>"

definition in_file :: "string \<Rightarrow> string \<Rightarrow> infile" where
  "in_file name txt = \<lparr>path_name = name, content = txt\<rparr>"

text \<open>Environments in which every move raises, or only the move into the duplicate folder.\<close>

definition moves_fail :: "string \<Rightarrow> env" where
  "moves_fail uuid = (no_faults uuid)\<lparr>move_raises := (\<lambda>d. Some (Exception ''PermissionError''))\<rparr>"

definition duplicate_move_fails :: "string \<Rightarrow> env" where
  "duplicate_move_fails uuid =
     (no_faults uuid)\<lparr>move_raises :=
        (\<lambda>d. if d = DuplicateDir then Some (Exception ''PermissionError'') else None)\<rparr>"

definition insert_conflicts :: "string \<Rightarrow> env" where
  "insert_conflicts uuid = (no_faults uuid)\<lparr>statement_raises := Some IntegrityError\<rparr>"

section \<open>Lemmas about the queries and the session assigner\<close>

lemma limit_1_None: "limit_1 p xs = None \<longleftrightarrow> xs = []"
  by (induction xs) (auto split: option.splits)

lemma limit_1_mem: "limit_1 p xs = Some y \<Longrightarrow> y \<in> set xs"
  by (induction xs arbitrary: y) (auto split: option.splits if_splits)

lemma limit_1_greatest:
  fixes f :: "'a \<Rightarrow> int"
  shows "limit_1 (\<lambda>a b. f a > f b) xs = Some y \<Longrightarrow> x \<in> set xs \<Longrightarrow> f x \<le> f y"
proof (induction xs arbitrary: y)
  case Nil
  then show ?case by simp
next
  case (Cons a xs)
  show ?case
  proof (cases "limit_1 (\<lambda>a b. f a > f b) xs")
    case None
    then have "xs = []" by (simp add: limit_1_None)
    with Cons.prems show ?thesis by simp
  next
    case (Some z)
    with Cons.IH have "x \<in> set xs \<Longrightarrow> f x \<le> f z" by blast
    with Cons.prems Some show ?thesis by (auto split: if_splits)
  qed
qed

lemma limit_1_least:
  fixes f :: "'a \<Rightarrow> int"
  shows "limit_1 (\<lambda>a b. f a < f b) xs = Some y \<Longrightarrow> x \<in> set xs \<Longrightarrow> f y \<le> f x"
proof (induction xs arbitrary: y)
  case Nil
  then show ?case by simp
next
  case (Cons a xs)
  show ?case
  proof (cases "limit_1 (\<lambda>a b. f a < f b) xs")
    case None
    then have "xs = []" by (simp add: limit_1_None)
    with Cons.prems show ?thesis by simp
  next
    case (Some z)
    with Cons.IH have "x \<in> set xs \<Longrightarrow> f z \<le> f x" by blast
    with Cons.prems Some show ?thesis by (auto split: if_splits)
  qed
qed

lemma prev_None:
  "SQL_PREV_WITHIN_GAP conn st ts gap = None \<longleftrightarrow> (\<forall>r\<in>set conn. \<not> prev_within_gap st ts gap r)"
  by (auto simp: SQL_PREV_WITHIN_GAP_def limit_1_None filter_empty_conv)

lemma next_None:
  "SQL_NEXT_WITHIN_GAP conn st ts gap = None \<longleftrightarrow> (\<forall>r\<in>set conn. \<not> next_within_gap st ts gap r)"
  by (auto simp: SQL_NEXT_WITHIN_GAP_def limit_1_None filter_empty_conv)

lemma prev_Some:
  assumes "SQL_PREV_WITHIN_GAP conn st ts gap = Some p"
  shows "p \<in> set conn" and "prev_within_gap st ts gap p"
    and "\<And>q. q \<in> set conn \<Longrightarrow> prev_within_gap st ts gap q \<Longrightarrow>
           tournament_start_ts_local q \<le> tournament_start_ts_local p"
  using assms limit_1_mem[of _ "filter (prev_within_gap st ts gap) conn" p]
    limit_1_greatest[of tournament_start_ts_local "filter (prev_within_gap st ts gap) conn" p]
  by (auto simp: SQL_PREV_WITHIN_GAP_def)

lemma next_Some:
  assumes "SQL_NEXT_WITHIN_GAP conn st ts gap = Some p"
  shows "p \<in> set conn" and "next_within_gap st ts gap p"
    and "\<And>q. q \<in> set conn \<Longrightarrow> next_within_gap st ts gap q \<Longrightarrow>
           tournament_start_ts_local p \<le> tournament_start_ts_local q"
  using assms limit_1_mem[of _ "filter (next_within_gap st ts gap) conn" p]
    limit_1_least[of tournament_start_ts_local "filter (next_within_gap st ts gap) conn" p]
  by (auto simp: SQL_NEXT_WITHIN_GAP_def)

lemma find_None_ensure:
  assumes "fst (find_existing_session_within_gap conn st ts gap_minutes) = None"
  shows "ensure_session_and_index conn st ts gap_minutes uuid now = ((uuid, Some ts, 1), conn)"
  using assms by (auto simp: ensure_session_and_index_def split: prod.splits option.splits)

lemma find_Some_row:
  assumes "find_existing_session_within_gap conn st ts gap_minutes = (Some sid, s0)"
  shows "\<exists>r\<in>set conn. session_id r = Some sid \<and> sid \<noteq> [] \<and> session_start_ts_local r = s0
     \<and> (prev_within_gap st ts (60 * gap_minutes) r \<or> next_within_gap st ts (60 * gap_minutes) r)"
  using assms
  by (auto simp: find_existing_session_within_gap_def row_session_def Let_def
      split: option.splits if_splits dest: prev_Some next_Some)

lemma downclosed_int:
  fixes S :: "int set"
  assumes fin: "finite S" and pos: "\<forall>x\<in>S. 1 \<le> x"
    and down: "\<forall>x\<in>S. \<forall>j. 1 \<le> j \<and> j \<le> x \<longrightarrow> j \<in> S"
  shows "S = {1 .. int (card S)}"
proof (cases "S = {}")
  case True
  then show ?thesis by simp
next
  case False
  define m where "m = Max S"
  have mS: "m \<in> S" unfolding m_def using fin False by (rule Max_in)
  have le: "\<forall>x\<in>S. x \<le> m" unfolding m_def using fin by simp
  have "S = {1 .. m}"
  proof
    show "S \<subseteq> {1 .. m}" using pos le by auto
    show "{1 .. m} \<subseteq> S" using down mS by auto
  qed
  moreover from mS pos have "1 \<le> m" by blast
  ultimately show ?thesis by simp
qed

lemma before_iff_index:
  assumes ok: "session_ok ms" and r: "r \<in> set ms"
  shows "tournament_start_ts_local r < t \<longleftrightarrow>
         session_tournament_index r \<le> int (length (filter (\<lambda>q. tournament_start_ts_local q < t) ms))"
proof -
  let ?idx = "session_tournament_index :: 'a tournament_row \<Rightarrow> int"
  let ?L = "filter (\<lambda>q. tournament_start_ts_local q < t) ms"
  let ?I = "?idx ` set ?L"
  from ok have dist: "distinct (map ?idx ms)" and rng: "?idx ` set ms = {1 .. int (length ms)}"
    and mono: "\<And>a b. a \<in> set ms \<Longrightarrow> b \<in> set ms \<Longrightarrow> ?idx a \<le> ?idx b \<Longrightarrow>
        tournament_start_ts_local a \<le> tournament_start_ts_local b"
    by (auto simp: session_ok_def)
  have inj: "inj_on ?idx (set ms)" using dist by (simp add: distinct_map)
  have distL: "distinct (map ?idx ?L)" using dist by (rule distinct_map_filter)
  then have cardI: "card ?I = length ?L"
    by (metis distinct_card length_map set_map)
  have pos: "\<forall>x\<in>?I. 1 \<le> x" using rng by auto
  have down: "\<forall>x\<in>?I. \<forall>j. 1 \<le> j \<and> j \<le> x \<longrightarrow> j \<in> ?I"
  proof (intro ballI allI impI)
    fix x j assume x: "x \<in> ?I" and j: "1 \<le> j \<and> j \<le> x"
    from x obtain b where b: "b \<in> set ms" "tournament_start_ts_local b < t" "x = ?idx b" by auto
    from b rng have "x \<le> int (length ms)" by auto
    with j have "j \<in> ?idx ` set ms" unfolding rng by simp
    then obtain a where a: "a \<in> set ms" "j = ?idx a" by auto
    from mono[OF a(1) b(1)] a(2) b(3) j have "tournament_start_ts_local a \<le> tournament_start_ts_local b" by simp
    with b(2) a show "j \<in> ?I" by auto
  qed
  have I: "?I = {1 .. int (length ?L)}"
    using downclosed_int[OF _ pos down] cardI by simp
  show ?thesis
  proof
    assume "tournament_start_ts_local r < t"
    with r have "?idx r \<in> ?I" by simp
    with I show "?idx r \<le> int (length ?L)" by simp
  next
    assume le: "?idx r \<le> int (length ?L)"
    from r rng have "1 \<le> ?idx r" by auto
    with le I have "?idx r \<in> ?I" by simp
    then obtain a where a: "a \<in> set ms" "tournament_start_ts_local a < t" "?idx a = ?idx r" by auto
    from inj a(1) r a(3) have "a = r" by (auto dest: inj_onD)
    with a(2) show "tournament_start_ts_local r < t" by simp
  qed
qed


lemma bump_row_fields [simp]:
  "site (bump_row now r) = site r"
  "session_id (bump_row now r) = session_id r"
  "tournament_start_ts_local (bump_row now r) = tournament_start_ts_local r"
  "session_tournament_index (bump_row now r) = session_tournament_index r + 1"
  "source_file_hash (bump_row now r) = source_file_hash r"
  by (simp_all add: bump_row_def)

lemma session_ok_insert:
  assumes ok: "session_ok ms"
    and ts: "tournament_start_ts_local new = t"
    and ix: "session_tournament_index new =
             int (length (filter (\<lambda>q. tournament_start_ts_local q < t) ms)) + 1"
  shows "session_ok (map (\<lambda>r. if t \<le> tournament_start_ts_local r then bump_row now r else r) ms @ [new])"
proof -
  let ?idx = "session_tournament_index :: 'a tournament_row \<Rightarrow> int"
  let ?st = "tournament_start_ts_local :: 'a tournament_row \<Rightarrow> int"
  let ?f = "\<lambda>r. if t \<le> ?st r then bump_row now r else r"
  define k where "k = int (length (filter (\<lambda>q. ?st q < t) ms))"
  define g where "g = (\<lambda>i::int. if i \<le> k then i else i + 1)"
  have kN: "0 \<le> k" "k \<le> int (length ms)" by (simp_all add: k_def)
  from ok have dist: "distinct (map ?idx ms)" and rng: "?idx ` set ms = {1 .. int (length ms)}"
    and mono: "\<And>a b. a \<in> set ms \<Longrightarrow> b \<in> set ms \<Longrightarrow> ?idx a \<le> ?idx b \<Longrightarrow> ?st a \<le> ?st b"
    by (auto simp: session_ok_def)
  have split: "\<And>r. r \<in> set ms \<Longrightarrow> (?st r < t) = (?idx r \<le> k)"
    unfolding k_def by (rule before_iff_index[OF ok])
  have split2: "\<And>r. r \<in> set ms \<Longrightarrow> (t \<le> ?st r) = (\<not> ?idx r \<le> k)"
    using split by (metis not_le)
  have fidx: "\<And>r. r \<in> set ms \<Longrightarrow> ?idx (?f r) = g (?idx r)"
    by (simp add: g_def split2)
  have fst: "\<And>r. ?st (?f r) = ?st r" by simp
  have map_eq: "map ?idx (map ?f ms) = map g (map ?idx ms)"
    using fidx by simp
  have inj: "inj_on g (set (map ?idx ms))"
    by (auto simp: inj_on_def g_def split: if_splits)
  have d1: "distinct (map ?idx (map ?f ms))"
    unfolding map_eq by (rule distinct_map[THEN iffD2, OF conjI[OF dist inj]])
  have notin: "k + 1 \<notin> set (map ?idx (map ?f ms))"
    unfolding map_eq by (auto simp: g_def split: if_splits)
  have img: "g ` {1 .. int (length ms)} \<union> {k + 1} = {1 .. int (length ms) + 1}"
  proof
    show "g ` {1 .. int (length ms)} \<union> {k + 1} \<subseteq> {1 .. int (length ms) + 1}"
      using kN by (auto simp: g_def)
    show "{1 .. int (length ms) + 1} \<subseteq> g ` {1 .. int (length ms)} \<union> {k + 1}"
    proof
      fix x assume x: "x \<in> {1 .. int (length ms) + 1}"
      consider "x \<le> k" | "x = k + 1" | "k + 1 < x" by linarith
      then show "x \<in> g ` {1 .. int (length ms)} \<union> {k + 1}"
      proof cases
        case 1
        with x kN have "x \<in> {1 .. int (length ms)}" "g x = x" by (auto simp: g_def)
        then show ?thesis by (metis UnI1 imageI)
      next
        case 2
        then show ?thesis by simp
      next
        case 3
        with x have "x - 1 \<in> {1 .. int (length ms)}" "g (x - 1) = x" using kN by (auto simp: g_def)
        then show ?thesis by (metis UnI1 imageI)
      qed
    qed
  qed
  have s1: "set (map ?idx (map ?f ms @ [new])) = {1 .. int (length (map ?f ms @ [new]))}"
  proof -
    have "set (map ?idx (map ?f ms @ [new])) = g ` (?idx ` set ms) \<union> {k + 1}"
      using map_eq ix by (simp add: k_def image_image)
    also have "\<dots> = {1 .. int (length ms) + 1}" unfolding rng by (rule img)
    finally show ?thesis by simp
  qed
  have m1: "\<forall>a\<in>set (map ?f ms @ [new]). \<forall>b\<in>set (map ?f ms @ [new]).
      ?idx a \<le> ?idx b \<longrightarrow> ?st a \<le> ?st b"
  proof (intro ballI impI)
    fix a b assume a: "a \<in> set (map ?f ms @ [new])" and b: "b \<in> set (map ?f ms @ [new])"
      and le: "?idx a \<le> ?idx b"
    have new_ix: "?idx new = k + 1" using ix by (simp add: k_def)
    from a consider (an) "a = new" | (ao) a0 where "a0 \<in> set ms" "a = ?f a0" by auto
    then show "?st a \<le> ?st b"
    proof cases
      case an
      from b consider (bn) "b = new" | (bo) b0 where "b0 \<in> set ms" "b = ?f b0" by auto
      then show ?thesis
      proof cases
        case bn
        with an show ?thesis by simp
      next
        case bo
        have "?idx b = g (?idx b0)" using bo fidx by simp
        with le an new_ix have "\<not> ?idx b0 \<le> k" by (auto simp: g_def split: if_splits)
        with split[OF bo(1)] have "t \<le> ?st b0" by simp
        with an bo ts show ?thesis by simp
      qed
    next
      case ao
      have ia: "?idx a = g (?idx a0)" using ao fidx by simp
      from b consider (bn) "b = new" | (bo) b0 where "b0 \<in> set ms" "b = ?f b0" by auto
      then show ?thesis
      proof cases
        case bn
        with le ia new_ix have "?idx a0 \<le> k" by (auto simp: g_def split: if_splits)
        with split[OF ao(1)] have "?st a0 < t" by simp
        with bn ao ts show ?thesis by simp
      next
        case bo
        have ib: "?idx b = g (?idx b0)" using bo fidx by simp
        from le ia ib have "?idx a0 \<le> ?idx b0" by (auto simp: g_def split: if_splits)
        from mono[OF ao(1) bo(1) this] ao bo show ?thesis by simp
      qed
    qed
  qed
  have d2: "distinct (map ?idx (map ?f ms @ [new]))"
    using d1 notin ix by (simp add: k_def)
  show ?thesis unfolding session_ok_def using d2 s1 m1 by blast
qed


lemma members_bump_same:
  "filter (in_session st sid) (SQL_BUMP_INDICES_AT_OR_AFTER_TS conn st sid ts now) =
   map (\<lambda>r. if ts \<le> tournament_start_ts_local r then bump_row now r else r)
     (filter (in_session st sid) conn)"
  by (induction conn) (auto simp: SQL_BUMP_INDICES_AT_OR_AFTER_TS_def in_session_def)

lemma members_bump_other:
  "(st', sid') \<noteq> (st, sid) \<Longrightarrow>
   filter (in_session st' sid') (SQL_BUMP_INDICES_AT_OR_AFTER_TS conn st sid ts now) =
   filter (in_session st' sid') conn"
  by (induction conn) (auto simp: SQL_BUMP_INDICES_AT_OR_AFTER_TS_def in_session_def)

lemma new_row_fields [simp]:
  "site (ParsedTournament.extend p (tournament_row.fields fn fh sid ss si im mo no)) = site p"
  "tournament_start_ts_local (ParsedTournament.extend p (tournament_row.fields fn fh sid ss si im mo no))
     = tournament_start_ts_local p"
  "session_id (ParsedTournament.extend p (tournament_row.fields fn fh sid ss si im mo no)) = sid"
  "session_tournament_index (ParsedTournament.extend p (tournament_row.fields fn fh sid ss si im mo no)) = si"
  "session_start_ts_local (ParsedTournament.extend p (tournament_row.fields fn fh sid ss si im mo no)) = ss"
  "source_file_hash (ParsedTournament.extend p (tournament_row.fields fn fh sid ss si im mo no)) = fh"
  by (simp_all add: ParsedTournament.defs tournament_row.defs)

lemma session_ok_single:
  "session_tournament_index r = 1 \<Longrightarrow> session_ok [r]"
  by (simp add: session_ok_def)

lemma uuid_fresh_members:
  "uuid_fresh conn uuid \<Longrightarrow> filter (in_session st uuid) conn = []"
  by (auto simp: uuid_fresh_def in_session_def list_all_iff filter_empty_conv)

lemma count_before_members:
  "SQL_COUNT_BEFORE_IN_SESSION conn st sid ts =
   int (length (filter (\<lambda>q. tournament_start_ts_local q < ts) (filter (in_session st sid) conn)))"
  by (simp add: SQL_COUNT_BEFORE_IN_SESSION_def conj_commute)

lemma ensure_new:
  assumes "find_existing_session_within_gap conn st ts g = (None, s0)"
  shows "ensure_session_and_index conn st ts g uuid now = ((uuid, Some ts, 1), conn)"
  using assms by (simp add: ensure_session_and_index_def)

lemma ensure_join:
  assumes "find_existing_session_within_gap conn st ts g = (Some sid, s0)"
  shows "\<exists>s1. ensure_session_and_index conn st ts g uuid now =
     ((sid, s1, SQL_COUNT_BEFORE_IN_SESSION conn st sid ts + 1),
      SQL_BUMP_INDICES_AT_OR_AFTER_TS conn st sid ts now)"
  using assms by (simp add: ensure_session_and_index_def Let_def)

lemma hash_exists_bump [simp]:
  "SQL_HASH_EXISTS (SQL_BUMP_INDICES_AT_OR_AFTER_TS conn st sid ts now) h = SQL_HASH_EXISTS conn h"
  by (induction conn) (auto simp: SQL_HASH_EXISTS_def SQL_BUMP_INDICES_AT_OR_AFTER_TS_def)

lemma assign_and_insert_inv:
  assumes inv: "session_inv conn" and fresh: "uuid_fresh conn uuid"
    and ins: "assign_and_insert conn p fn fh g uuid now = Inr conn'"
  shows "session_inv conn'"
proof -
  let ?st = "site p" and ?ts = "tournament_start_ts_local p"
  obtain so s0 where f: "find_existing_session_within_gap conn ?st ?ts g = (so, s0)"
    by (cases "find_existing_session_within_gap conn ?st ?ts g")
  show ?thesis
  proof (cases so)
    case None
    let ?new = "ParsedTournament.extend p (tournament_row.fields fn fh (Some uuid) (Some ?ts) 1 now None None)"
    from f None ins have c': "conn' = conn @ [?new]"
      by (auto simp: assign_and_insert_def ensure_new SQL_INSERT_TOURNAMENT_def split: if_splits)
    show ?thesis unfolding session_inv_def
    proof (intro allI)
      fix st sid
      show "session_ok (filter (in_session st sid) conn')"
      proof (cases "(st, sid) = (?st, uuid)")
        case True
        then have "filter (in_session st sid) conn' = [?new]"
          using uuid_fresh_members[OF fresh, of ?st] by (simp add: c' in_session_def)
        then show ?thesis by (simp add: session_ok_single)
      next
        case False
        then have "filter (in_session st sid) conn' = filter (in_session st sid) conn"
          by (auto simp: c' in_session_def)
        with inv show ?thesis by (simp add: session_inv_def)
      qed
    qed
  next
    case (Some sid0)
    from ensure_join[of conn ?st ?ts g sid0 s0 uuid now] f Some obtain s1 where
      e: "ensure_session_and_index conn ?st ?ts g uuid now =
        ((sid0, s1, SQL_COUNT_BEFORE_IN_SESSION conn ?st sid0 ?ts + 1),
         SQL_BUMP_INDICES_AT_OR_AFTER_TS conn ?st sid0 ?ts now)" by auto
    let ?k = "SQL_COUNT_BEFORE_IN_SESSION conn ?st sid0 ?ts"
    let ?new = "ParsedTournament.extend p (tournament_row.fields fn fh (Some sid0) s1 (?k + 1) now None None)"
    from e ins have c': "conn' = SQL_BUMP_INDICES_AT_OR_AFTER_TS conn ?st sid0 ?ts now @ [?new]"
      by (auto simp: assign_and_insert_def SQL_INSERT_TOURNAMENT_def split: if_splits)
    show ?thesis unfolding session_inv_def
    proof (intro allI)
      fix st sid
      show "session_ok (filter (in_session st sid) conn')"
      proof (cases "(st, sid) = (?st, sid0)")
        case True
        have ok: "session_ok (filter (in_session ?st sid0) conn)"
          using inv by (simp add: session_inv_def)
        have "filter (in_session st sid) conn' =
          map (\<lambda>r. if ?ts \<le> tournament_start_ts_local r then bump_row now r else r)
            (filter (in_session ?st sid0) conn) @ [?new]"
          using True by (simp add: c' members_bump_same) (simp add: in_session_def)
        moreover have "session_ok (map (\<lambda>r. if ?ts \<le> tournament_start_ts_local r then bump_row now r else r)
            (filter (in_session ?st sid0) conn) @ [?new])"
          by (rule session_ok_insert[OF ok]) (simp_all add: count_before_members)
        ultimately show ?thesis by simp
      next
        case False
        then have "filter (in_session st sid) conn' = filter (in_session st sid) conn"
          by (auto simp: c' members_bump_other) (auto simp: in_session_def)
        with inv show ?thesis by (simp add: session_inv_def)
      qed
    qed
  qed
qed

lemma insert_one_inv:
  "session_inv conn \<Longrightarrow> uuid_fresh conn (ins_uuid x) \<Longrightarrow> session_inv (insert_one conn x)"
  by (auto simp: insert_one_def split: sum.splits dest: assign_and_insert_inv)

lemma row_session_SomeD:
  "row_session (Some r) \<noteq> None \<Longrightarrow> row_session (Some r) = Some (the (session_id r), session_start_ts_local r)
     \<and> session_id r = Some (the (session_id r))"
  by (auto simp: row_session_def split: option.splits if_splits)

lemma far_members_find_None:
  assumes "\<forall>r\<in>set conn. site r = st \<and> row_session (Some r) \<noteq> None \<longrightarrow>
             60 * gap_minutes < \<bar>tournament_start_ts_local r - ts\<bar>"
  shows "find_existing_session_within_gap conn st ts gap_minutes = (None, None)"
proof -
  have p: "row_session (SQL_PREV_WITHIN_GAP conn st ts (60 * gap_minutes)) = None"
  proof (cases "SQL_PREV_WITHIN_GAP conn st ts (60 * gap_minutes)")
    case None
    then show ?thesis by (simp add: row_session_def)
  next
    case (Some r)
    from prev_Some(1,2)[OF Some] have "r \<in> set conn" and "site r = st"
      and "\<not> 60 * gap_minutes < \<bar>tournament_start_ts_local r - ts\<bar>"
      by (auto simp: prev_within_gap_def)
    with assms Some show ?thesis by auto
  qed
  have n: "row_session (SQL_NEXT_WITHIN_GAP conn st ts (60 * gap_minutes)) = None"
  proof (cases "SQL_NEXT_WITHIN_GAP conn st ts (60 * gap_minutes)")
    case None
    then show ?thesis by (simp add: row_session_def)
  next
    case (Some r)
    from next_Some(1,2)[OF Some] have "r \<in> set conn" and "site r = st"
      and "\<not> 60 * gap_minutes < \<bar>tournament_start_ts_local r - ts\<bar>"
      by (auto simp: next_within_gap_def)
    with assms Some show ?thesis by auto
  qed
  from p n show ?thesis by (simp add: find_existing_session_within_gap_def)
qed

lemma bump_row_member:
  "row_session (Some (bump_row now r)) \<noteq> None \<longleftrightarrow> row_session (Some r) \<noteq> None"
  by (simp add: row_session_def bump_row_def split: option.splits)

text \<open>Every row that the importer writes is a session member, if \<open>uuid4\<close> returns a non-empty string.\<close>

lemma insert_one_members:
  assumes "\<forall>r\<in>set conn. row_session (Some r) \<noteq> None" and "ins_uuid x \<noteq> []"
  shows "\<forall>r\<in>set (insert_one conn x). row_session (Some r) \<noteq> None"
proof -
  let ?p = "ins_parsed x"
  obtain so s0 where f: "find_existing_session_within_gap conn (site ?p)
      (tournament_start_ts_local ?p) (ins_gap_minutes x) = (so, s0)"
    by (cases "find_existing_session_within_gap conn (site ?p)
      (tournament_start_ts_local ?p) (ins_gap_minutes x)")
  show ?thesis
  proof (cases so)
    case None
    with f assms show ?thesis
      by (auto simp: insert_one_def assign_and_insert_def ensure_new SQL_INSERT_TOURNAMENT_def
          row_session_def split: sum.splits if_splits)
  next
    case (Some sid)
    from find_Some_row[OF f[unfolded Some]] have ne: "sid \<noteq> []" by auto
    from ensure_join[OF f[unfolded Some], of "ins_uuid x" "ins_now x"] obtain s1 where
      e: "ensure_session_and_index conn (site ?p) (tournament_start_ts_local ?p)
            (ins_gap_minutes x) (ins_uuid x) (ins_now x) =
          ((sid, s1, SQL_COUNT_BEFORE_IN_SESSION conn (site ?p) sid (tournament_start_ts_local ?p) + 1),
           SQL_BUMP_INDICES_AT_OR_AFTER_TS conn (site ?p) sid (tournament_start_ts_local ?p) (ins_now x))"
      by blast
    have b: "\<forall>r\<in>set (SQL_BUMP_INDICES_AT_OR_AFTER_TS conn (site ?p) sid
        (tournament_start_ts_local ?p) (ins_now x)). row_session (Some r) \<noteq> None"
    proof
      fix r assume "r \<in> set (SQL_BUMP_INDICES_AT_OR_AFTER_TS conn (site ?p) sid
        (tournament_start_ts_local ?p) (ins_now x))"
      then obtain r0 where "r0 \<in> set conn" and "r = bump_row (ins_now x) r0 \<or> r = r0"
        by (auto simp: SQL_BUMP_INDICES_AT_OR_AFTER_TS_def split: if_splits)
      with assms(1) show "row_session (Some r) \<noteq> None"
        using bump_row_member[of "ins_now x" r0] by blast
    qed
    show ?thesis
      using e b assms(1) ne
      by (auto simp: insert_one_def assign_and_insert_def SQL_INSERT_TOURNAMENT_def
          row_session_def split: sum.splits if_splits)
  qed
qed

section \<open>Lemmas about the pipeline\<close>

lemma ensure_hash_exists:
  "ensure_session_and_index conn st ts g uuid now = (res, conn') \<Longrightarrow>
   SQL_HASH_EXISTS conn' h = SQL_HASH_EXISTS conn h"
  by (auto simp: ensure_session_and_index_def Let_def split: prod.splits option.splits)

lemma hash_exists_append:
  "SQL_HASH_EXISTS (conn @ [r]) h \<longleftrightarrow> SQL_HASH_EXISTS conn h \<or> source_file_hash r = h"
  by (auto simp: SQL_HASH_EXISTS_def)

lemma assign_and_insert_Inr:
  assumes "assign_and_insert conn p fn h g uuid now = Inr conn'"
  shows "\<not> SQL_HASH_EXISTS conn h \<and> SQL_HASH_EXISTS conn' h \<and>
         (\<forall>h'. SQL_HASH_EXISTS conn h' \<longrightarrow> SQL_HASH_EXISTS conn' h')"
proof -
  obtain res conn1 where
    e: "ensure_session_and_index conn (site p) (tournament_start_ts_local p) g uuid now = (res, conn1)"
    by (cases "ensure_session_and_index conn (site p) (tournament_start_ts_local p) g uuid now")
  note same = ensure_hash_exists[OF e]
  obtain sid ss si where res: "res = (sid, ss, si)" by (cases res)
  from assms e res have ins: "SQL_INSERT_TOURNAMENT conn1 p fn h sid ss si now = Inr conn'"
    by (simp add: assign_and_insert_def)
  then have "\<not> SQL_HASH_EXISTS conn1 h" and
    c': "conn' = conn1 @ [ParsedTournament.extend p (tournament_row.fields fn h (Some sid) ss si now None None)]"
    by (auto simp: SQL_INSERT_TOURNAMENT_def split: if_splits)
  then show ?thesis using same by (simp add: hash_exists_append)
qed

lemma assign_and_insert_Inl:
  assumes "assign_and_insert conn p fn h g uuid now = Inl x"
  shows "x = IntegrityError \<and> SQL_HASH_EXISTS conn h"
proof -
  obtain res conn1 where
    e: "ensure_session_and_index conn (site p) (tournament_start_ts_local p) g uuid now = (res, conn1)"
    by (cases "ensure_session_and_index conn (site p) (tournament_start_ts_local p) g uuid now")
  note same = ensure_hash_exists[OF e]
  obtain sid ss si where res: "res = (sid, ss, si)" by (cases res)
  from assms e res have ins: "SQL_INSERT_TOURNAMENT conn1 p fn h sid ss si now = Inl x"
    by (simp add: assign_and_insert_def)
  then show ?thesis using same by (auto simp: SQL_INSERT_TOURNAMENT_def split: if_splits)
qed

lemma safe_move_Inr:
  "safe_move_with_suffix e fs src d = Inr fs' \<longleftrightarrow>
     move_raises e d = None \<and> fs src = Some InputDir \<and> fs' = fs(src \<mapsto> d)"
  by (auto simp: safe_move_with_suffix_def split: option.splits)

lemma safe_move_Inl:
  "safe_move_with_suffix e fs src d = Inl x \<longleftrightarrow>
     move_raises e d = Some x \<or>
     (move_raises e d = None \<and> fs src \<noteq> Some InputDir \<and> x = Exception ''FileNotFoundError'')"
  by (auto simp: safe_move_with_suffix_def split: option.splits)

lemma imc_Inr:
  "insert_move_commit cfg e f h p w = Inr (fs, conn) \<Longrightarrow>
     statement_raises e = None \<and>
     assign_and_insert (db w) p (path_name f) h (session_gap_minutes cfg) (uuid4 e) (clock e) = Inr conn \<and>
     move_raises e ProcessedDir = None \<and> files w (path_name f) = Some InputDir \<and>
     fs = (files w)(path_name f \<mapsto> ProcessedDir) \<and>
     commit_raises e = None"
  by (simp add: insert_move_commit_def safe_move_Inr split: option.splits sum.splits)

lemma imc_Inl:
  "insert_move_commit cfg e f h p w = Inl (x, fs) \<Longrightarrow>
     (fs = files w \<and> (statement_raises e = Some x \<or>
         (statement_raises e = None \<and> x = IntegrityError \<and> SQL_HASH_EXISTS (db w) h) \<or>
         safe_move_with_suffix e (files w) (path_name f) ProcessedDir = Inl x)) \<or>
     (fs = (files w)(path_name f \<mapsto> ProcessedDir) \<and> files w (path_name f) = Some InputDir \<and>
      commit_raises e = Some x)"
  by (simp add: insert_move_commit_def safe_move_Inr split: option.splits sum.splits)
     (auto dest: assign_and_insert_Inl)


lemma log_jsonl_sel [simp]:
  "log (log_jsonl w now ev) = log w @ [ev\<lparr>timestamp := Some now\<rparr>]"
  "files (log_jsonl w now ev) = files w"
  "db (log_jsonl w now ev) = db w"
  by (simp_all add: log_jsonl_def)

lemma transaction_Inr:
  assumes "transaction cfg e f h p ev w = Inr w'"
  shows "begin_raises e = None \<and>
      ((log w' = log w @ [ev\<lparr>status := Some ''inserted'', reason := Some ''ok'',
                              timestamp := Some (clock e)\<rparr>] \<and>
          insert_move_commit cfg e f h p w = Inr (files w', db w')) \<or>
       (log w' = log w @ [ev\<lparr>status := Some ''duplicate'', reason := Some ''unique_conflict'',
                              timestamp := Some (clock e)\<rparr>] \<and> db w' = db w \<and>
          (\<exists>fs0. insert_move_commit cfg e f h p w = Inl (IntegrityError, fs0) \<and>
             safe_move_with_suffix e fs0 (path_name f) DuplicateDir = Inr (files w'))) \<or>
       (db w' = db w \<and>
          (\<exists>n fs0. log w' = log w @ [ev\<lparr>status := Some ''error'',
                 reason := Some (''move_failed_or_db_error:'' @ n), timestamp := Some (clock e)\<rparr>] \<and>
             insert_move_commit cfg e f h p w = Inl (Exception n, fs0) \<and>
             files w' = try_move e fs0 (path_name f) NeedsReviewDir)))"
  using assms
  by (auto simp: transaction_def split: option.splits sum.splits prod.splits exn.splits)

lemma transaction_Inl:
  assumes "transaction cfg e f h p ev w = Inl (x, w')"
  shows "log w' = log w \<and> db w' = db w \<and>
    ((begin_raises e = Some x \<and> files w' = files w) \<or>
     (begin_raises e = None \<and>
        insert_move_commit cfg e f h p w = Inl (IntegrityError, files w') \<and>
        safe_move_with_suffix e (files w') (path_name f) DuplicateDir = Inl x))"
  using assms
  by (auto simp: transaction_def split: option.splits sum.splits prod.splits exn.splits)

lemma fill_event_sel [simp]:
  "file_name (fill_event ev p) = file_name ev"
  "file_hash (fill_event ev p) = file_hash ev"
  by (simp_all add: fill_event_def)

lemma open_file_Inr:
  "open_file r w f = Inr t \<longleftrightarrow> r = None \<and> files w (path_name f) = Some InputDir \<and> t = content f"
  by (auto simp: open_file_def split: option.splits)

lemma parse_and_store_Inr:
  assumes "parse_and_store rt cfg e f h ev w = Inr w'"
  shows "open_file (read_raises e) w f = Inr (content f) \<and>
     ((\<exists>why. parse rt (config_site cfg) (content f) = Inr (None, why) \<and>
         move_unless_dry_run cfg e (files w) (path_name f) NeedsReviewDir = Inr (files w') \<and>
         db w' = db w \<and>
         log w' = log w @ [ev\<lparr>status := Some (failure_status why),
            reason := Some (failure_reason why), timestamp := Some (clock e)\<rparr>]) \<or>
      (\<exists>p why. parse rt (config_site cfg) (content f) = Inr (Some p, why) \<and>
         dry_run cfg \<and> files w' = files w \<and> db w' = db w \<and>
         log w' = log w @ [(fill_event ev p)\<lparr>status := Some ''dry_run'',
            reason := Some ''no_db_no_move'', timestamp := Some (clock e)\<rparr>]) \<or>
      (\<exists>p why. parse rt (config_site cfg) (content f) = Inr (Some p, why) \<and> \<not> dry_run cfg \<and>
         transaction cfg e f h p (fill_event ev p) w = Inr w'))"
proof (cases "open_file (read_raises e) w f")
  case (Inl x)
  with assms show ?thesis by (simp add: parse_and_store_def)
next
  case (Inr t)
  then have t: "t = content f" by (simp add: open_file_Inr)
  show ?thesis
  proof (cases "parse rt (config_site cfg) (content f)")
    case (Inl x)
    with assms Inr t show ?thesis by (simp add: parse_and_store_def)
  next
    case pr: (Inr res)
    obtain po why where res: "res = (po, why)" by (cases res)
    show ?thesis
    proof (cases po)
      case None
      with assms Inr t pr res show ?thesis
        by (auto simp: parse_and_store_def split: sum.splits)
    next
      case (Some p)
      with assms Inr t pr res show ?thesis
        by (auto simp: parse_and_store_def Let_def split: sum.splits if_splits prod.splits)
    qed
  qed
qed

lemma parse_and_store_Inl:
  assumes "parse_and_store rt cfg e f h ev w = Inl (x, w', ev')"
  shows "file_name ev' = file_name ev \<and> file_hash ev' = file_hash ev \<and>
     ((w' = w \<and>
        (open_file (read_raises e) w f = Inl x \<or>
         open_file (read_raises e) w f = Inr (content f) \<and>
           (parse rt (config_site cfg) (content f) = Inl x \<or>
            (\<exists>why. parse rt (config_site cfg) (content f) = Inr (None, why)) \<and>
              move_unless_dry_run cfg e (files w) (path_name f) NeedsReviewDir = Inl x))) \<or>
      (open_file (read_raises e) w f = Inr (content f) \<and> \<not> dry_run cfg \<and>
        (\<exists>p why. parse rt (config_site cfg) (content f) = Inr (Some p, why) \<and>
           transaction cfg e f h p (fill_event ev p) w = Inl (x, w'))))"
proof (cases "open_file (read_raises e) w f")
  case (Inl y)
  with assms show ?thesis by (simp add: parse_and_store_def)
next
  case (Inr t)
  then have t: "t = content f" by (simp add: open_file_Inr)
  show ?thesis
  proof (cases "parse rt (config_site cfg) (content f)")
    case (Inl y)
    with assms Inr t show ?thesis by (simp add: parse_and_store_def)
  next
    case pr: (Inr res)
    obtain po why where res: "res = (po, why)" by (cases res)
    show ?thesis
    proof (cases po)
      case None
      with assms Inr t pr res show ?thesis
        by (auto simp: parse_and_store_def split: sum.splits)
    next
      case (Some p)
      with assms Inr t pr res show ?thesis
        by (auto simp: parse_and_store_def Let_def split: sum.splits if_splits prod.splits)
    qed
  qed
qed


lemma attempt_file_Inr:
  assumes "attempt_file rt cfg e f ev w = Inr w'"
  shows "open_file (hash_raises e) w f = Inr (content f) \<and> lookup_raises e = None \<and>
     ((SQL_HASH_EXISTS (db w) (sha256_file rt (content f)) \<and>
        move_unless_dry_run cfg e (files w) (path_name f) DuplicateDir = Inr (files w') \<and>
        db w' = db w \<and>
        log w' = log w @ [ev\<lparr>file_hash := Some (sha256_file rt (content f)),
           status := Some ''duplicate'', reason := Some ''hash_exists'', timestamp := Some (clock e)\<rparr>]) \<or>
      (\<not> SQL_HASH_EXISTS (db w) (sha256_file rt (content f)) \<and>
        parse_and_store rt cfg e f (sha256_file rt (content f))
          (ev\<lparr>file_hash := Some (sha256_file rt (content f))\<rparr>) w = Inr w'))"
proof (cases "open_file (hash_raises e) w f")
  case (Inl x)
  with assms show ?thesis by (simp add: attempt_file_def)
next
  case (Inr t)
  then have t: "t = content f" by (simp add: open_file_Inr)
  from assms Inr t show ?thesis
    by (auto simp: attempt_file_def hash_exists_def Let_def
        split: option.splits sum.splits bool.splits)
qed

lemma attempt_file_Inl:
  assumes "attempt_file rt cfg e f ev w = Inl (x, w', ev')"
  shows "file_name ev' = file_name ev \<and>
     ((w' = w \<and> ev' = ev \<and> open_file (hash_raises e) w f = Inl x) \<or>
      (open_file (hash_raises e) w f = Inr (content f) \<and>
       ((w' = w \<and> lookup_raises e = Some x) \<or>
        (w' = w \<and> lookup_raises e = None \<and> SQL_HASH_EXISTS (db w) (sha256_file rt (content f)) \<and>
           move_unless_dry_run cfg e (files w) (path_name f) DuplicateDir = Inl x) \<or>
        (lookup_raises e = None \<and> \<not> SQL_HASH_EXISTS (db w) (sha256_file rt (content f)) \<and>
           parse_and_store rt cfg e f (sha256_file rt (content f))
             (ev\<lparr>file_hash := Some (sha256_file rt (content f))\<rparr>) w = Inl (x, w', ev')))))"
proof (cases "open_file (hash_raises e) w f")
  case (Inl y)
  with assms show ?thesis by (simp add: attempt_file_def)
next
  case (Inr t)
  then have t: "t = content f" by (simp add: open_file_Inr)
  from assms Inr t show ?thesis
    by (auto simp: attempt_file_def hash_exists_def Let_def
        split: option.splits sum.splits bool.splits dest: parse_and_store_Inl)
qed

text \<open>The paths through one round of the loop that end in the \<open>try\<close> body's own log record.\<close>

lemma attempt_file_Inr_cases:
  assumes "attempt_file rt cfg e f ev w = Inr w'"
  obtains
    (stored) "files w (path_name f) = Some InputDir" "hash_raises e = None" "lookup_raises e = None"
      "SQL_HASH_EXISTS (db w) (sha256_file rt (content f))"
      "move_unless_dry_run cfg e (files w) (path_name f) DuplicateDir = Inr (files w')"
      "db w' = db w"
      "log w' = log w @ [ev\<lparr>file_hash := Some (sha256_file rt (content f)),
           status := Some ''duplicate'', reason := Some ''hash_exists'', timestamp := Some (clock e)\<rparr>]"
  | (unparsed) why where
      "files w (path_name f) = Some InputDir" "hash_raises e = None" "lookup_raises e = None"
      "\<not> SQL_HASH_EXISTS (db w) (sha256_file rt (content f))" "read_raises e = None"
      "parse rt (config_site cfg) (content f) = Inr (None, why)"
      "move_unless_dry_run cfg e (files w) (path_name f) NeedsReviewDir = Inr (files w')"
      "db w' = db w"
      "log w' = log w @ [ev\<lparr>file_hash := Some (sha256_file rt (content f)),
           status := Some (failure_status why), reason := Some (failure_reason why),
           timestamp := Some (clock e)\<rparr>]"
  | (dry) p why where
      "files w (path_name f) = Some InputDir" "hash_raises e = None" "lookup_raises e = None"
      "\<not> SQL_HASH_EXISTS (db w) (sha256_file rt (content f))" "read_raises e = None"
      "parse rt (config_site cfg) (content f) = Inr (Some p, why)"
      "dry_run cfg" "files w' = files w" "db w' = db w"
      "log w' = log w @ [(fill_event (ev\<lparr>file_hash := Some (sha256_file rt (content f))\<rparr>) p)
           \<lparr>status := Some ''dry_run'', reason := Some ''no_db_no_move'', timestamp := Some (clock e)\<rparr>]"
  | (inserted) p why where
      "files w (path_name f) = Some InputDir" "hash_raises e = None" "lookup_raises e = None"
      "\<not> SQL_HASH_EXISTS (db w) (sha256_file rt (content f))" "read_raises e = None"
      "parse rt (config_site cfg) (content f) = Inr (Some p, why)"
      "\<not> dry_run cfg" "begin_raises e = None"
      "insert_move_commit cfg e f (sha256_file rt (content f)) p w = Inr (files w', db w')"
      "log w' = log w @ [(fill_event (ev\<lparr>file_hash := Some (sha256_file rt (content f))\<rparr>) p)
           \<lparr>status := Some ''inserted'', reason := Some ''ok'', timestamp := Some (clock e)\<rparr>]"
  | (conflict) p why fs0 where
      "files w (path_name f) = Some InputDir" "hash_raises e = None" "lookup_raises e = None"
      "\<not> SQL_HASH_EXISTS (db w) (sha256_file rt (content f))" "read_raises e = None"
      "parse rt (config_site cfg) (content f) = Inr (Some p, why)"
      "\<not> dry_run cfg" "begin_raises e = None"
      "insert_move_commit cfg e f (sha256_file rt (content f)) p w = Inl (IntegrityError, fs0)"
      "safe_move_with_suffix e fs0 (path_name f) DuplicateDir = Inr (files w')"
      "db w' = db w"
      "log w' = log w @ [(fill_event (ev\<lparr>file_hash := Some (sha256_file rt (content f))\<rparr>) p)
           \<lparr>status := Some ''duplicate'', reason := Some ''unique_conflict'',
            timestamp := Some (clock e)\<rparr>]"
  | (failed) p why n fs0 where
      "files w (path_name f) = Some InputDir" "hash_raises e = None" "lookup_raises e = None"
      "\<not> SQL_HASH_EXISTS (db w) (sha256_file rt (content f))" "read_raises e = None"
      "parse rt (config_site cfg) (content f) = Inr (Some p, why)"
      "\<not> dry_run cfg" "begin_raises e = None"
      "insert_move_commit cfg e f (sha256_file rt (content f)) p w = Inl (Exception n, fs0)"
      "files w' = try_move e fs0 (path_name f) NeedsReviewDir"
      "db w' = db w"
      "log w' = log w @ [(fill_event (ev\<lparr>file_hash := Some (sha256_file rt (content f))\<rparr>) p)
           \<lparr>status := Some ''error'', reason := Some (''move_failed_or_db_error:'' @ n),
            timestamp := Some (clock e)\<rparr>]"
proof -
  let ?h = "sha256_file rt (content f)"
  note A = attempt_file_Inr[OF assms]
  from A have pres: "files w (path_name f) = Some InputDir" "hash_raises e = None" "lookup_raises e = None"
    by (simp_all add: open_file_Inr)
  show thesis
  proof (cases "SQL_HASH_EXISTS (db w) ?h")
    case True
    with A pres show thesis by (intro stored) auto
  next
    case False
    with A have P: "parse_and_store rt cfg e f ?h (ev\<lparr>file_hash := Some ?h\<rparr>) w = Inr w'" by auto
    note B = parse_and_store_Inr[OF P]
    from B have rd: "read_raises e = None" by (simp add: open_file_Inr)
    from B consider
      (a) why where "parse rt (config_site cfg) (content f) = Inr (None, why)"
         "move_unless_dry_run cfg e (files w) (path_name f) NeedsReviewDir = Inr (files w')"
         "db w' = db w"
         "log w' = log w @ [ev\<lparr>file_hash := Some ?h, status := Some (failure_status why),
            reason := Some (failure_reason why), timestamp := Some (clock e)\<rparr>]"
    | (b) p why where "parse rt (config_site cfg) (content f) = Inr (Some p, why)"
         "dry_run cfg" "files w' = files w" "db w' = db w"
         "log w' = log w @ [(fill_event (ev\<lparr>file_hash := Some ?h\<rparr>) p)\<lparr>status := Some ''dry_run'',
            reason := Some ''no_db_no_move'', timestamp := Some (clock e)\<rparr>]"
    | (c) p why where "parse rt (config_site cfg) (content f) = Inr (Some p, why)" "\<not> dry_run cfg"
         "transaction cfg e f ?h p (fill_event (ev\<lparr>file_hash := Some ?h\<rparr>) p) w = Inr w'"
      by blast
    then show thesis
    proof cases
      case a
      with False pres rd show thesis by (intro unparsed)
    next
      case b
      with False pres rd show thesis by (intro dry)
    next
      case c
      note T = transaction_Inr[OF c(3)]
      from T have bg: "begin_raises e = None" by simp
      from T consider
        (i) "log w' = log w @ [(fill_event (ev\<lparr>file_hash := Some ?h\<rparr>) p)\<lparr>status := Some ''inserted'',
               reason := Some ''ok'', timestamp := Some (clock e)\<rparr>]"
            "insert_move_commit cfg e f ?h p w = Inr (files w', db w')"
      | (ii) fs0 where "log w' = log w @ [(fill_event (ev\<lparr>file_hash := Some ?h\<rparr>) p)\<lparr>status := Some ''duplicate'',
               reason := Some ''unique_conflict'', timestamp := Some (clock e)\<rparr>]" "db w' = db w"
            "insert_move_commit cfg e f ?h p w = Inl (IntegrityError, fs0)"
            "safe_move_with_suffix e fs0 (path_name f) DuplicateDir = Inr (files w')"
      | (iii) n fs0 where "db w' = db w"
            "log w' = log w @ [(fill_event (ev\<lparr>file_hash := Some ?h\<rparr>) p)\<lparr>status := Some ''error'',
                 reason := Some (''move_failed_or_db_error:'' @ n), timestamp := Some (clock e)\<rparr>]"
            "insert_move_commit cfg e f ?h p w = Inl (Exception n, fs0)"
            "files w' = try_move e fs0 (path_name f) NeedsReviewDir"
        by blast
      then show thesis
      proof cases
        case i
        with False pres rd c bg show thesis by (intro inserted)
      next
        case ii
        with False pres rd c bg show thesis by (intro conflict)
      next
        case iii
        with False pres rd c bg show thesis by (intro failed)
      qed
    qed
  qed
qed

text \<open>An exception that reaches the outer handler leaves the rows and the log as they were;
  the file is where it was, or the transaction had moved it before its commit.\<close>

lemma attempt_file_Inl_frame:
  assumes "attempt_file rt cfg e f ev w = Inl (x, w', ev')"
  shows "log w' = log w \<and> db w' = db w \<and> file_name ev' = file_name ev \<and>
    (files w' = files w \<or>
         (\<not> dry_run cfg \<and> files w (path_name f) = Some InputDir \<and>
          files w' = (files w)(path_name f \<mapsto> ProcessedDir) \<and> commit_raises e = Some IntegrityError))"
proof -
  note A = attempt_file_Inl[OF assms]
  from A have n: "file_name ev' = file_name ev" by simp
  from A consider (same) "w' = w"
    | (tr) p ev1 where "\<not> dry_run cfg"
        "transaction cfg e f (sha256_file rt (content f)) p ev1 w = Inl (x, w')"
    by (auto dest!: parse_and_store_Inl)
  then show ?thesis
  proof cases
    case same
    with n show ?thesis by simp
  next
    case tr
    note T = transaction_Inl[OF tr(2)]
    from T have "log w' = log w" "db w' = db w" by simp_all
    moreover from T tr(1) have "files w' = files w \<or>
         (\<not> dry_run cfg \<and> files w (path_name f) = Some InputDir \<and>
          files w' = (files w)(path_name f \<mapsto> ProcessedDir) \<and> commit_raises e = Some IntegrityError)"
      by (auto dest!: imc_Inl)
    ultimately show ?thesis using n by simp
  qed
qed

lemma try_move_eq:
  "try_move e fs src d =
     (if move_raises e d = None \<and> fs src = Some InputDir then fs(src \<mapsto> d) else fs)"
  by (auto simp: try_move_def safe_move_with_suffix_def split: option.splits sum.splits)

lemma move_unless_dry_run_Inr:
  "move_unless_dry_run cfg e fs src d = Inr fs' \<longleftrightarrow>
     (if dry_run cfg then fs' = fs
      else move_raises e d = None \<and> fs src = Some InputDir \<and> fs' = fs(src \<mapsto> d))"
  by (auto simp: move_unless_dry_run_def safe_move_Inr)

lemma failure_status_cases: "failure_status why = ''needs_review'' \<or> failure_status why = ''error''"
  by (simp add: failure_status_def)

lemma new_event_sel [simp]: "file_name (new_event n) = n" "file_hash (new_event n) = None"
  by (simp_all add: new_event_def)

text \<open>One round of the loop: either the body logs its own record, or the outer handler does.\<close>

lemma process_file_cases:
  obtains
    (ok) "attempt_file rt cfg e f (new_event (path_name f)) w = Inr (process_file rt cfg e f w)"
  | (fatal) x w1 ev where
      "attempt_file rt cfg e f (new_event (path_name f)) w = Inl (x, w1, ev)"
      "log (process_file rt cfg e f w) =
         log w @ [ev\<lparr>status := Some ''error'', reason := Some (''fatal:'' @ exn_name x),
                     timestamp := Some (clock e)\<rparr>]"
      "db (process_file rt cfg e f w) = db w"
      "file_name ev = path_name f"
      "files (process_file rt cfg e f w) =
         (if \<not> dry_run cfg then try_move e (files w1) (path_name f) NeedsReviewDir else files w1)"
      "files w1 = files w \<or>
         (\<not> dry_run cfg \<and> files w (path_name f) = Some InputDir \<and>
          files w1 = (files w)(path_name f \<mapsto> ProcessedDir) \<and> commit_raises e = Some IntegrityError)"
proof (cases "attempt_file rt cfg e f (new_event (path_name f)) w")
  case (Inr w')
  then have "attempt_file rt cfg e f (new_event (path_name f)) w = Inr (process_file rt cfg e f w)"
    by (simp add: process_file_def)
  then show thesis by (rule ok)
next
  case (Inl t)
  obtain x w1 ev where t: "t = (x, w1, ev)" by (cases t)
  note F = attempt_file_Inl_frame[OF Inl[unfolded t]]
  show thesis
  proof (rule fatal[of x w1 ev])
    show "attempt_file rt cfg e f (new_event (path_name f)) w = Inl (x, w1, ev)"
      using Inl t by simp
    show "log (process_file rt cfg e f w) =
         log w @ [ev\<lparr>status := Some ''error'', reason := Some (''fatal:'' @ exn_name x),
                     timestamp := Some (clock e)\<rparr>]"
      using Inl t F by (simp add: process_file_def Let_def)
    show "db (process_file rt cfg e f w) = db w"
      using Inl t F by (simp add: process_file_def Let_def)
    show "file_name ev = path_name f" using F by simp
    show "files (process_file rt cfg e f w) =
         (if \<not> dry_run cfg then try_move e (files w1) (path_name f) NeedsReviewDir else files w1)"
      using Inl t by (simp add: process_file_def Let_def)
    show "files w1 = files w \<or>
         (\<not> dry_run cfg \<and> files w (path_name f) = Some InputDir \<and>
          files w1 = (files w)(path_name f \<mapsto> ProcessedDir) \<and> commit_raises e = Some IntegrityError)"
      using F by blast
  qed
qed

text \<open>Every round appends exactly one record, for the file at hand, with one of the five statuses.\<close>

lemma process_file_log:
  "\<exists>ev. log (process_file rt cfg e f w) = log w @ [ev] \<and> file_name ev = path_name f \<and>
     (\<exists>s. status ev = Some s \<and> s \<in> set [''inserted'', ''duplicate'', ''needs_review'', ''error'', ''dry_run''])"
proof (cases rule: process_file_cases[of rt cfg e f w])
  case ok
  then show ?thesis
    using failure_status_cases
    by (cases rule: attempt_file_Inr_cases) fastforce+
next
  case (fatal x w1 ev)
  then show ?thesis by simp
qed


lemma process_file_last:
  "log (process_file rt cfg e f w) = log w @ [last (log (process_file rt cfg e f w))]"
  using process_file_log[of rt cfg e f w] by auto

text \<open>Dry-run changes neither the files nor the rows.\<close>

lemma process_file_dry_run:
  assumes "dry_run cfg"
  shows "files (process_file rt cfg e f w) = files w \<and> db (process_file rt cfg e f w) = db w"
proof (cases rule: process_file_cases[of rt cfg e f w])
  case ok
  then show ?thesis using assms
    by (cases rule: attempt_file_Inr_cases) (simp_all add: move_unless_dry_run_Inr)
next
  case (fatal x w1 ev)
  then show ?thesis using assms by auto
qed

text \<open>A file is logged as inserted only when its hash was not stored before and is stored after.\<close>

lemma process_file_inserted:
  assumes "status (last (log (process_file rt cfg e f w))) = Some ''inserted''"
  shows "\<not> dry_run cfg \<and>
     file_hash (last (log (process_file rt cfg e f w))) = Some (sha256_file rt (content f)) \<and>
     \<not> SQL_HASH_EXISTS (db w) (sha256_file rt (content f)) \<and>
     SQL_HASH_EXISTS (db (process_file rt cfg e f w)) (sha256_file rt (content f)) \<and>
     files w (path_name f) = Some InputDir \<and>
     files (process_file rt cfg e f w) = (files w)(path_name f \<mapsto> ProcessedDir)"
proof (cases rule: process_file_cases[of rt cfg e f w])
  case ok
  then show ?thesis
  proof (cases rule: attempt_file_Inr_cases)
    case (inserted p why)
    note I = imc_Inr[OF inserted(9)]
    from I have "assign_and_insert (db w) p (path_name f) (sha256_file rt (content f))
        (session_gap_minutes cfg) (uuid4 e) (clock e) = Inr (db (process_file rt cfg e f w))" by simp
    note H = assign_and_insert_Inr[OF this]
    from I H inserted show ?thesis
      by (simp add: fill_event_def)
  next
    case (unparsed why)
    with assms failure_status_cases[of why] show ?thesis by auto
  qed (use assms in simp_all)
next
  case (fatal x w1 ev)
  with assms show ?thesis by simp
qed

text \<open>Stored hashes stay stored, and only an inserted file changes the rows.\<close>

lemma process_file_db:
  "(SQL_HASH_EXISTS (db w) h \<longrightarrow> SQL_HASH_EXISTS (db (process_file rt cfg e f w)) h) \<and>
   (status (last (log (process_file rt cfg e f w))) \<noteq> Some ''inserted'' \<longrightarrow>
      db (process_file rt cfg e f w) = db w)"
proof (cases rule: process_file_cases[of rt cfg e f w])
  case ok
  then show ?thesis
  proof (cases rule: attempt_file_Inr_cases)
    case (inserted p why)
    note I = imc_Inr[OF inserted(9)]
    from I have "assign_and_insert (db w) p (path_name f) (sha256_file rt (content f))
        (session_gap_minutes cfg) (uuid4 e) (clock e) = Inr (db (process_file rt cfg e f w))" by simp
    note H = assign_and_insert_Inr[OF this]
    from H inserted show ?thesis
      by simp
  qed simp_all
next
  case (fatal x w1 ev)
  then show ?thesis by simp
qed

text \<open>Only the file at hand moves, and only out of the input directory.\<close>

lemma process_file_frame:
  "(g \<noteq> path_name f \<longrightarrow> files (process_file rt cfg e f w) g = files w g) \<and>
   (files w (path_name f) \<noteq> Some InputDir \<longrightarrow> files (process_file rt cfg e f w) = files w)"
proof (cases rule: process_file_cases[of rt cfg e f w])
  case ok
  then show ?thesis
  proof (cases rule: attempt_file_Inr_cases)
    case (inserted p why)
    from imc_Inr[OF inserted(9)] show ?thesis by auto
  next
    case (conflict p why fs0)
    from imc_Inl[OF conflict(9)] conflict(10) show ?thesis
      by (auto simp: safe_move_Inr)
  next
    case (failed p why n fs0)
    from imc_Inl[OF failed(9)] failed(10) show ?thesis
      by (auto simp: try_move_eq)
  qed (auto simp: move_unless_dry_run_Inr split: if_splits)
next
  case (fatal x w1 ev)
  then show ?thesis by (auto simp: try_move_eq)
qed


text \<open>Where no move and no commit raises, the file ends in the folder of its status.\<close>

lemma process_file_placement:
  assumes "\<not> dry_run cfg" and "files w (path_name f) = Some InputDir"
    and "\<forall>d. move_raises e d = None" and "commit_raises e = None"
  shows "(status (last (log (process_file rt cfg e f w))) = Some ''inserted'' \<and>
            files (process_file rt cfg e f w) (path_name f) = Some ProcessedDir) \<or>
         (status (last (log (process_file rt cfg e f w))) = Some ''duplicate'' \<and>
            files (process_file rt cfg e f w) (path_name f) = Some DuplicateDir) \<or>
         ((status (last (log (process_file rt cfg e f w))) = Some ''needs_review'' \<or>
           status (last (log (process_file rt cfg e f w))) = Some ''error'') \<and>
            files (process_file rt cfg e f w) (path_name f) = Some NeedsReviewDir)"
proof (cases rule: process_file_cases[of rt cfg e f w])
  case ok
  then show ?thesis
  proof (cases rule: attempt_file_Inr_cases)
    case stored
    with assms show ?thesis by (simp add: move_unless_dry_run_Inr)
  next
    case (unparsed why)
    with assms failure_status_cases[of why] show ?thesis
      by (auto simp: move_unless_dry_run_Inr)
  next
    case (dry p why)
    with assms show ?thesis by simp
  next
    case (inserted p why)
    from imc_Inr[OF inserted(9)] inserted(10) show ?thesis
      by simp
  next
    case (conflict p why fs0)
    from imc_Inl[OF conflict(9)] assms have "fs0 = files w" by auto
    with conflict assms show ?thesis
      by (simp add: safe_move_Inr)
  next
    case (failed p why n fs0)
    from imc_Inl[OF failed(9)] assms have "fs0 = files w" by auto
    with failed assms show ?thesis
      by (simp add: try_move_eq)
  qed
next
  case (fatal x w1 ev)
  with assms have "files w1 = files w" by auto
  with fatal assms show ?thesis
    by (simp add: try_move_eq)
qed

text \<open>A file whose hash is stored is a duplicate, if hashing, lookup and move succeed.\<close>

lemma process_file_stored_hash:
  assumes "SQL_HASH_EXISTS (db w) (sha256_file rt (content f))"
    and "files w (path_name f) = Some InputDir"
    and "hash_raises e = None" and "lookup_raises e = None"
    and "\<not> dry_run cfg" and "move_raises e DuplicateDir = None"
  shows "status (last (log (process_file rt cfg e f w))) = Some ''duplicate'' \<and>
         reason (last (log (process_file rt cfg e f w))) = Some ''hash_exists'' \<and>
         db (process_file rt cfg e f w) = db w \<and>
         files (process_file rt cfg e f w) = (files w)(path_name f \<mapsto> DuplicateDir)"
  using assms
  by (simp add: process_file_def attempt_file_def open_file_def hash_exists_def
      move_unless_dry_run_def safe_move_with_suffix_def)

text \<open>A uniqueness violation raised by the INSERT is rolled back and filed as a duplicate.\<close>

lemma process_file_unique_conflict:
  assumes "files w (path_name f) = Some InputDir"
    and "hash_raises e = None" and "lookup_raises e = None" and "read_raises e = None"
    and "\<not> SQL_HASH_EXISTS (db w) (sha256_file rt (content f))"
    and "parse rt (config_site cfg) (content f) = Inr (Some p, why)"
    and "\<not> dry_run cfg" and "begin_raises e = None"
    and "statement_raises e = Some IntegrityError"
    and "move_raises e DuplicateDir = None"
  shows "status (last (log (process_file rt cfg e f w))) = Some ''duplicate'' \<and>
         reason (last (log (process_file rt cfg e f w))) = Some ''unique_conflict'' \<and>
         db (process_file rt cfg e f w) = db w \<and>
         files (process_file rt cfg e f w) = (files w)(path_name f \<mapsto> DuplicateDir)"
  using assms
  by (simp add: process_file_def attempt_file_def parse_and_store_def transaction_def
      insert_move_commit_def open_file_def hash_exists_def
      move_unless_dry_run_def safe_move_with_suffix_def)

text \<open>In dry-run the record says \<open>dry_run\<close> exactly for a readable file with a new hash that parses.\<close>

lemma process_file_dry_run_status:
  assumes "dry_run cfg"
  shows "status (last (log (process_file rt cfg e f w))) = Some ''dry_run'' \<longleftrightarrow>
     files w (path_name f) = Some InputDir \<and> hash_raises e = None \<and> lookup_raises e = None \<and>
     read_raises e = None \<and> \<not> SQL_HASH_EXISTS (db w) (sha256_file rt (content f)) \<and>
     (\<exists>p why. parse rt (config_site cfg) (content f) = Inr (Some p, why))"
proof
  assume d: "status (last (log (process_file rt cfg e f w))) = Some ''dry_run''"
  show "files w (path_name f) = Some InputDir \<and> hash_raises e = None \<and> lookup_raises e = None \<and>
     read_raises e = None \<and> \<not> SQL_HASH_EXISTS (db w) (sha256_file rt (content f)) \<and>
     (\<exists>p why. parse rt (config_site cfg) (content f) = Inr (Some p, why))"
  proof (cases rule: process_file_cases[of rt cfg e f w])
    case ok
    then show ?thesis
    proof (cases rule: attempt_file_Inr_cases)
      case (unparsed why)
      with d failure_status_cases[of why] show ?thesis by auto
    qed (use d in simp_all)
  next
    case (fatal x w1 ev)
    with d show ?thesis by simp
  qed
next
  assume "files w (path_name f) = Some InputDir \<and> hash_raises e = None \<and> lookup_raises e = None \<and>
     read_raises e = None \<and> \<not> SQL_HASH_EXISTS (db w) (sha256_file rt (content f)) \<and>
     (\<exists>p why. parse rt (config_site cfg) (content f) = Inr (Some p, why))"
  then show "status (last (log (process_file rt cfg e f w))) = Some ''dry_run''"
    using assms
    by (auto simp: process_file_def attempt_file_def parse_and_store_def open_file_def hash_exists_def)
qed

lemma run_queue_append:
  "run_queue rt cfg (q1 @ q2) w = run_queue rt cfg q2 (run_queue rt cfg q1 w)"
  by (induction q1 arbitrary: w) simp_all

text \<open>The run appends one record per file of the queue, in the order of the queue.\<close>

lemma run_queue_log:
  "\<exists>evs. log (run_queue rt cfg q w) = log w @ evs \<and>
     map file_name evs = map (\<lambda>fe. path_name (fst fe)) q \<and>
     (\<forall>ev\<in>set evs. \<exists>s. status ev = Some s \<and>
        s \<in> set [''inserted'', ''duplicate'', ''needs_review'', ''error'', ''dry_run''])"
proof (induction q arbitrary: w)
  case Nil
  show ?case by simp
next
  case (Cons fe q)
  let ?w1 = "process_file rt cfg (snd fe) (fst fe) w"
  from process_file_log[of rt cfg "snd fe" "fst fe" w] obtain ev where
    ev: "log ?w1 = log w @ [ev]" "file_name ev = path_name (fst fe)"
      "\<exists>s. status ev = Some s \<and> s \<in> set [''inserted'', ''duplicate'', ''needs_review'', ''error'', ''dry_run'']"
    by blast
  from Cons.IH[of ?w1] obtain evs where
    evs: "log (run_queue rt cfg q ?w1) = log ?w1 @ evs"
      "map file_name evs = map (\<lambda>fe. path_name (fst fe)) q"
      "\<forall>ev\<in>set evs. \<exists>s. status ev = Some s \<and>
        s \<in> set [''inserted'', ''duplicate'', ''needs_review'', ''error'', ''dry_run'']"
    by blast
  show ?case
  proof (intro exI[of _ "ev # evs"] conjI)
    show "log (run_queue rt cfg (fe # q) w) = log w @ ev # evs" using ev evs by simp
    show "map file_name (ev # evs) = map (\<lambda>fe. path_name (fst fe)) (fe # q)" using ev evs by simp
    show "\<forall>ev\<in>set (ev # evs). \<exists>s. status ev = Some s \<and>
        s \<in> set [''inserted'', ''duplicate'', ''needs_review'', ''error'', ''dry_run'']"
      using ev(3) evs(3) by (metis set_ConsD)
  qed
qed

lemma run_queue_new_events:
  "map file_name (drop (length (log w)) (log (run_queue rt cfg q w))) =
     map (\<lambda>fe. path_name (fst fe)) q \<and>
   take (length (log w)) (log (run_queue rt cfg q w)) = log w"
  using run_queue_log[of rt cfg q w] by auto

lemma run_queue_hash_mono:
  "SQL_HASH_EXISTS (db w) h \<Longrightarrow> SQL_HASH_EXISTS (db (run_queue rt cfg q w)) h"
  by (induction q arbitrary: w) (simp_all add: process_file_db)

lemma run_queue_frame:
  "g \<notin> set (map (\<lambda>fe. path_name (fst fe)) q) \<Longrightarrow> files (run_queue rt cfg q w) g = files w g"
  by (induction q arbitrary: w) (simp_all add: process_file_frame)

lemma run_queue_stable:
  "files w g \<noteq> Some InputDir \<Longrightarrow> files (run_queue rt cfg q w) g = files w g"
proof (induction q arbitrary: w)
  case Nil
  show ?case by simp
next
  case (Cons fe q)
  have "files (process_file rt cfg (snd fe) (fst fe) w) g = files w g"
    using Cons.prems process_file_frame[of g "fst fe" rt cfg "snd fe" w]
    by (cases "g = path_name (fst fe)") auto
  with Cons.IH[of "process_file rt cfg (snd fe) (fst fe) w"] Cons.prems show ?case by simp
qed

lemma run_queue_dry_run:
  "dry_run cfg \<Longrightarrow> files (run_queue rt cfg q w) = files w \<and> db (run_queue rt cfg q w) = db w"
  by (induction q arbitrary: w) (simp_all add: process_file_dry_run)

lemma mset_file_queue: "mset (file_queue rt cfg w fs) = mset fs"
  by (simp add: file_queue_def)

text \<open>Among the records of a run, at most one says inserted for a given hash, and none does
  for a hash that was stored before the run.\<close>

lemma run_queue_inserted_once:
  "length (filter (\<lambda>ev. status ev = Some ''inserted'' \<and> file_hash ev = Some h)
      (drop (length (log w)) (log (run_queue rt cfg q w))))
   \<le> (if SQL_HASH_EXISTS (db w) h then 0 else 1)"
proof (induction q arbitrary: w)
  case Nil
  show ?case by simp
next
  case (Cons fe q)
  let ?w1 = "process_file rt cfg (snd fe) (fst fe) w"
  let ?ev = "last (log ?w1)"
  let ?ins = "\<lambda>ev. status ev = Some ''inserted'' \<and> file_hash ev = Some h"
  from process_file_log[of rt cfg "snd fe" "fst fe" w] obtain ev0 where
    l1: "log ?w1 = log w @ [ev0]" by blast
  then have ev0: "?ev = ev0" by simp
  from run_queue_log[of rt cfg q ?w1] obtain evs where
    evs: "log (run_queue rt cfg q ?w1) = log ?w1 @ evs" by blast
  have new: "drop (length (log w)) (log (run_queue rt cfg (fe # q) w)) = ?ev # evs"
    unfolding ev0 using l1 evs by simp
  have rest: "drop (length (log ?w1)) (log (run_queue rt cfg q ?w1)) = evs"
    using evs by simp
  have IH: "length (filter ?ins evs) \<le> (if SQL_HASH_EXISTS (db ?w1) h then 0 else 1)"
    using Cons.IH[of ?w1] rest by simp
  show ?case
  proof (cases "?ins ?ev")
    case True
    then have "status ?ev = Some ''inserted''" by simp
    from process_file_inserted[OF this] True
    have "\<not> SQL_HASH_EXISTS (db w) h" "SQL_HASH_EXISTS (db ?w1) h" by auto
    with IH True show ?thesis unfolding new by simp
  next
    case False
    have "SQL_HASH_EXISTS (db w) h \<Longrightarrow> SQL_HASH_EXISTS (db ?w1) h"
      using process_file_db[of w h rt cfg "snd fe" "fst fe"] by simp
    with IH False show ?thesis unfolding new by (auto split: if_splits)
  qed
qed

section \<open>Properties of the session assigner\<close>

text \<open>
  C1. Starting from a store whose sessions are well numbered, any sequence of
  \<open>ensure_session_and_index\<close> calls, each followed by its INSERT (rolled back when the
  content hash is already stored), leaves every session with pairwise different ordinal
  indices that are exactly \<open>1..N\<close> for its \<open>N\<close> members, and a member with a
  smaller or equal index never starts later. The events may arrive in any order of
  timestamps. Each new session id is assumed not to be stored already (\<open>uuids_fresh\<close>).
\<close>

theorem session_indices_contiguous:
  assumes "session_inv conn" and "uuids_fresh conn xs"
  shows "\<forall>st sid.
     distinct (map session_tournament_index (filter (in_session st sid) (insert_all conn xs))) \<and>
     set (map session_tournament_index (filter (in_session st sid) (insert_all conn xs))) =
       {1 .. int (length (filter (in_session st sid) (insert_all conn xs)))} \<and>
     (\<forall>a\<in>set (filter (in_session st sid) (insert_all conn xs)).
      \<forall>b\<in>set (filter (in_session st sid) (insert_all conn xs)).
        session_tournament_index a \<le> session_tournament_index b \<longrightarrow>
        tournament_start_ts_local a \<le> tournament_start_ts_local b)"
proof -
  from assms have "session_inv (insert_all conn xs)"
    by (induction xs arbitrary: conn) (auto simp: insert_one_inv)
  then show ?thesis unfolding session_inv_def session_ok_def by blast
qed

text \<open>
  Three results at \<open>T\<close>, \<open>T + 10 min\<close> and \<open>T + 5 min\<close>, inserted in this order
  into an empty store, form one session with the indices 1, 2, 3.
\<close>

theorem session_indices_contiguous_witness:
  "uuids_fresh [] [sample_insertion 0 ''a'' ''u1'', sample_insertion 600 ''b'' ''u2'',
                   sample_insertion 300 ''c'' ''u3''] \<and>
   set (map session_tournament_index (filter (in_session ''GG'' ''u1'')
     (insert_all [] [sample_insertion 0 ''a'' ''u1'', sample_insertion 600 ''b'' ''u2'',
                     sample_insertion 300 ''c'' ''u3'']))) = {1 .. 3}"
proof -
  have h1: "session_inv ([] :: int tournament_row list)"
    by (simp add: session_inv_def session_ok_def)
  have h2: "uuids_fresh [] [sample_insertion 0 ''a'' ''u1'', sample_insertion 600 ''b'' ''u2'',
                   sample_insertion 300 ''c'' ''u3'']"
    by code_simp
  have len: "length (filter (in_session ''GG'' ''u1'')
     (insert_all [] [sample_insertion 0 ''a'' ''u1'', sample_insertion 600 ''b'' ''u2'',
                     sample_insertion 300 ''c'' ''u3''])) = 3"
    by code_simp
  from session_indices_contiguous[OF h1 h2] len h2 show ?thesis by simp
qed

text \<open>
  C2. The claim: the session start that \<open>ensure_session_and_index\<close> returns, and that is
  stored with the new row, is the minimum over all members including the new event.
  The code takes the minimum before the new row is inserted. With one member at 1000 and a
  new event at 900 (gap 60 minutes) it returns 1000; the new row is stored with session
  start 1000 although the earliest member of the session is then the row at 900.
\<close>

theorem session_start_misses_new_event:
  "fst (ensure_session_and_index [stored_row ''a'' 1000 ''s'' 1] ''GG'' 900 60 ''u'' 0)
     = (''s'', Some 1000, 1) \<and>
   map (\<lambda>r. (tournament_start_ts_local r, session_start_ts_local r))
     (insert_one [stored_row ''a'' 1000 ''s'' 1] (sample_insertion 900 ''b'' ''u'')) =
     [(1000, Some 1000), (900, Some 1000)] \<and>
   SQL_MIN_SESSION_START
     (insert_one [stored_row ''a'' 1000 ''s'' 1] (sample_insertion 900 ''b'' ''u'')) ''GG'' ''s''
     = Some 900"
  by code_simp

text \<open>
  C3, as amended. When an event joins an existing session whose indices are well numbered,
  its ordinal index is one plus the number of members strictly before its timestamp, every
  member at or after its timestamp is renumbered one higher, and so the new event comes
  before the members that have exactly its timestamp: each of them ends with a higher index.
\<close>

theorem index_is_count_before_plus_one:
  assumes inv: "session_inv conn"
    and f: "find_existing_session_within_gap conn st ts gap_minutes = (Some sid, s0)"
    and e: "ensure_session_and_index conn st ts gap_minutes uuid now = ((sid', s1, idx), conn')"
  shows "sid' = sid \<and>
     idx = 1 + int (length (filter (\<lambda>r. in_session st sid r \<and> tournament_start_ts_local r < ts) conn)) \<and>
     conn' = map (\<lambda>r. if in_session st sid r \<and> ts \<le> tournament_start_ts_local r
                       then bump_row now r else r) conn \<and>
     (\<forall>r\<in>set conn'. in_session st sid r \<and> tournament_start_ts_local r = ts \<longrightarrow>
        idx < session_tournament_index r)"
proof -
  let ?k = "SQL_COUNT_BEFORE_IN_SESSION conn st sid ts"
  from ensure_join[OF f, of uuid now] e
  have sid: "sid' = sid" and idx: "idx = ?k + 1"
    and c': "conn' = SQL_BUMP_INDICES_AT_OR_AFTER_TS conn st sid ts now" by auto
  have ok: "session_ok (filter (in_session st sid) conn)"
    using inv by (simp add: session_inv_def)
  have lt: "idx < session_tournament_index r"
    if r: "r \<in> set conn'" "in_session st sid r" "tournament_start_ts_local r = ts" for r
  proof -
    from r(1) obtain r0 where r0: "r0 \<in> set conn"
      "r = (if in_session st sid r0 \<and> ts \<le> tournament_start_ts_local r0 then bump_row now r0 else r0)"
      unfolding c' SQL_BUMP_INDICES_AT_OR_AFTER_TS_def by auto
    from r0(2) r(2,3) have in0: "in_session st sid r0" and ts0: "tournament_start_ts_local r0 = ts"
      by (auto simp: in_session_def split: if_splits)
    with r0(2) have rb: "r = bump_row now r0" by simp
    from r0(1) in0 have "r0 \<in> set (filter (in_session st sid) conn)" by simp
    from before_iff_index[OF ok this, of ts] ts0
    have "?k < session_tournament_index r0" by (simp add: count_before_members)
    with rb idx show ?thesis by simp
  qed
  have idx': "idx = 1 + int (length (filter (\<lambda>r. in_session st sid r \<and> tournament_start_ts_local r < ts) conn))"
    using idx by (simp add: SQL_COUNT_BEFORE_IN_SESSION_def)
  have c'': "conn' = map (\<lambda>r. if in_session st sid r \<and> ts \<le> tournament_start_ts_local r
                       then bump_row now r else r) conn"
    using c' by (simp add: SQL_BUMP_INDICES_AT_OR_AFTER_TS_def)
  from sid idx' c'' lt show ?thesis by blast
qed

text \<open>
  The claim as stated fails: a session with one member at 1000 (index 1) receives an event
  at 1000. The event gets index 1 and the member that was there is renumbered to 2.
\<close>

theorem equal_timestamp_goes_before:
  "ensure_session_and_index [stored_row ''a'' 1000 ''s'' 1] ''GG'' 1000 60 ''u'' 5 =
     ((''s'', Some 1000, 1), [bump_row 5 (stored_row ''a'' 1000 ''s'' 1)]) \<and>
   session_tournament_index (bump_row 5 (stored_row ''a'' 1000 ''s'' 1)) = 2 \<and>
   tournament_start_ts_local (bump_row 5 (stored_row ''a'' 1000 ''s'' 1)) = 1000"
  by code_simp

text \<open>The amended statement at a session with members at 900 and 1000 and an event at 1000.\<close>

theorem index_is_count_before_plus_one_witness:
  "find_existing_session_within_gap [stored_row ''a'' 900 ''s'' 1, stored_row ''b'' 1000 ''s'' 2]
     ''GG'' 1000 60 = (Some ''s'', Some 1000) \<and>
   ensure_session_and_index [stored_row ''a'' 900 ''s'' 1, stored_row ''b'' 1000 ''s'' 2]
     ''GG'' 1000 60 ''u'' 5 =
     ((''s'', Some 900, 2), [stored_row ''a'' 900 ''s'' 1, bump_row 5 (stored_row ''b'' 1000 ''s'' 2)]) \<and>
   (2::int) = 1 + int (length (filter (\<lambda>r. in_session ''GG'' ''s'' r \<and> tournament_start_ts_local r < 1000)
       [stored_row ''a'' 900 ''s'' 1, stored_row ''b'' 1000 ''s'' 2])) \<and>
   2 < session_tournament_index (bump_row 5 (stored_row ''b'' 1000 ''s'' 2))"
proof -
  let ?conn = "[stored_row ''a'' 900 ''s'' 1, stored_row ''b'' 1000 ''s'' 2]"
  have site: "site (stored_row h t s i) = ''GG''" "session_id (stored_row h t s i) = Some s"
    "session_tournament_index (stored_row h t s i) = i"
    "tournament_start_ts_local (stored_row h t s i) = t" for h t s i
    by (simp_all add: stored_row_def sample_result_def)
  have inv: "session_inv ?conn"
    by (auto simp: session_inv_def session_ok_def in_session_def site)
  have f: "find_existing_session_within_gap ?conn ''GG'' 1000 60 = (Some ''s'', Some 1000)"
    by code_simp
  have e: "ensure_session_and_index ?conn ''GG'' 1000 60 ''u'' 5 =
     ((''s'', Some 900, 2), [stored_row ''a'' 900 ''s'' 1, bump_row 5 (stored_row ''b'' 1000 ''s'' 2)])"
    by code_simp
  from index_is_count_before_plus_one[OF inv f e] f e show ?thesis
    by (simp add: in_session_def site)
qed

text \<open>
  C7, as amended. An event that is farther than the gap from every session member of its
  site, on both sides, starts a new session: \<open>ensure_session_and_index\<close> returns the
  identifier that \<open>uuid4\<close> produced for the call, the event's own timestamp as session
  start, and index 1, and it leaves the rows as they are. The identifier is returned as
  \<open>uuid4\<close> gave it, whatever the stored session ids are: the function never compares
  it with them. With a gap of 0 minutes the rows that both lookups consider are exactly
  the rows of the site with the event's timestamp.
\<close>

theorem far_event_starts_new_session:
  assumes far: "\<forall>r\<in>set conn. site r = st \<and> row_session (Some r) \<noteq> None \<longrightarrow>
                  60 * gap_minutes < \<bar>tournament_start_ts_local r - ts\<bar>"
  shows "ensure_session_and_index conn st ts gap_minutes uuid now = ((uuid, Some ts, 1), conn) \<and>
     filter (prev_within_gap st ts (60 * 0)) conn =
       filter (\<lambda>r. site r = st \<and> tournament_start_ts_local r = ts) conn \<and>
     filter (next_within_gap st ts (60 * 0)) conn =
       filter (\<lambda>r. site r = st \<and> tournament_start_ts_local r = ts) conn"
proof -
  have "ensure_session_and_index conn st ts gap_minutes uuid now = ((uuid, Some ts, 1), conn)"
    using far_members_find_None[OF far] by (simp add: ensure_new)
  moreover have "filter (prev_within_gap st ts (60 * 0)) conn =
       filter (\<lambda>r. site r = st \<and> tournament_start_ts_local r = ts) conn"
    by (rule filter_cong) (auto simp: prev_within_gap_def)
  moreover have "filter (next_within_gap st ts (60 * 0)) conn =
       filter (\<lambda>r. site r = st \<and> tournament_start_ts_local r = ts) conn"
    by (rule filter_cong) (auto simp: next_within_gap_def)
  ultimately show ?thesis by blast
qed

text \<open>
  The claim as stated fails: the returned identifier need not differ from the stored
  session ids. With a member of session \<open>u\<close> of the same site stored at 0, a gap of 60
  minutes and an event two hours later, a call in which \<open>uuid4\<close> yields \<open>u\<close> returns
  \<open>u\<close> with the event's timestamp and index 1.
\<close>

theorem minted_id_can_be_stored:
  "site (stored_row ''a'' 0 ''u'' 1) = ''GG'' \<and>
   session_id (stored_row ''a'' 0 ''u'' 1) = Some ''u'' \<and>
   60 * 60 < \<bar>tournament_start_ts_local (stored_row ''a'' 0 ''u'' 1) - 7200\<bar> \<and>
   ensure_session_and_index [stored_row ''a'' 0 ''u'' 1] ''GG'' 7200 60 ''u'' 5 =
     ((''u'', Some 7200, 1), [stored_row ''a'' 0 ''u'' 1])"
  by code_simp

text \<open>A stored row at 0 and an event two hours later, with a gap of 60 minutes.\<close>

theorem far_event_starts_new_session_witness:
  "ensure_session_and_index [stored_row ''a'' 0 ''s'' 1] ''GG'' 7200 60 ''u'' 5 =
     ((''u'', Some 7200, 1), [stored_row ''a'' 0 ''s'' 1]) \<and>
   filter (prev_within_gap ''GG'' 7200 (60 * 0)) [stored_row ''a'' 0 ''s'' 1] = []"
proof -
  have far: "\<forall>r\<in>set [stored_row ''a'' 0 ''s'' 1].
      site r = ''GG'' \<and> row_session (Some r) \<noteq> None \<longrightarrow>
      60 * 60 < \<bar>tournament_start_ts_local r - 7200\<bar>"
    by (simp add: stored_row_def sample_result_def)
  have ts: "tournament_start_ts_local (stored_row ''a'' 0 ''s'' 1) = 0"
    by (simp add: stored_row_def sample_result_def)
  from far_event_starts_new_session[OF far, of "''u''" 5] ts show ?thesis by simp
qed

text \<open>
  C8. Where every stored row of the site is a session member (its session id is set),
  a predecessor within the gap decides the session: the lookup returns the session of a
  nearest qualifying predecessor whenever one exists, whatever successors there are, and
  the session of a nearest qualifying successor only when no predecessor qualifies.
\<close>

theorem predecessor_preferred:
  assumes members: "\<forall>r\<in>set conn. site r = st \<longrightarrow> row_session (Some r) \<noteq> None"
  shows "((\<exists>p\<in>set conn. prev_within_gap st ts (60 * gap_minutes) p) \<longrightarrow>
            (\<exists>p\<in>set conn. prev_within_gap st ts (60 * gap_minutes) p \<and>
               (\<forall>q\<in>set conn. prev_within_gap st ts (60 * gap_minutes) q \<longrightarrow>
                  tournament_start_ts_local q \<le> tournament_start_ts_local p) \<and>
               find_existing_session_within_gap conn st ts gap_minutes =
                 (session_id p, session_start_ts_local p))) \<and>
         ((\<forall>p\<in>set conn. \<not> prev_within_gap st ts (60 * gap_minutes) p) \<longrightarrow>
          (\<exists>n\<in>set conn. next_within_gap st ts (60 * gap_minutes) n) \<longrightarrow>
            (\<exists>n\<in>set conn. next_within_gap st ts (60 * gap_minutes) n \<and>
               (\<forall>q\<in>set conn. next_within_gap st ts (60 * gap_minutes) q \<longrightarrow>
                  tournament_start_ts_local n \<le> tournament_start_ts_local q) \<and>
               find_existing_session_within_gap conn st ts gap_minutes =
                 (session_id n, session_start_ts_local n)))"
proof (intro conjI impI)
  let ?g = "60 * gap_minutes"
  assume "\<exists>p\<in>set conn. prev_within_gap st ts ?g p"
  then have "SQL_PREV_WITHIN_GAP conn st ts ?g \<noteq> None" by (simp add: prev_None)
  then obtain p where p: "SQL_PREV_WITHIN_GAP conn st ts ?g = Some p" by auto
  note P = prev_Some[OF p]
  from P(2) have "site p = st" by (simp add: prev_within_gap_def)
  with members P(1) have "row_session (Some p) \<noteq> None" by blast
  from row_session_SomeD[OF this] p
  have "find_existing_session_within_gap conn st ts gap_minutes = (session_id p, session_start_ts_local p)"
    by (simp add: find_existing_session_within_gap_def)
  with P show "\<exists>p\<in>set conn. prev_within_gap st ts ?g p \<and>
       (\<forall>q\<in>set conn. prev_within_gap st ts ?g q \<longrightarrow>
          tournament_start_ts_local q \<le> tournament_start_ts_local p) \<and>
       find_existing_session_within_gap conn st ts gap_minutes =
         (session_id p, session_start_ts_local p)" by blast
next
  let ?g = "60 * gap_minutes"
  assume np: "\<forall>p\<in>set conn. \<not> prev_within_gap st ts ?g p"
    and "\<exists>n\<in>set conn. next_within_gap st ts ?g n"
  then have "SQL_NEXT_WITHIN_GAP conn st ts ?g \<noteq> None" by (simp add: next_None)
  then obtain n where n: "SQL_NEXT_WITHIN_GAP conn st ts ?g = Some n" by auto
  from np have pn: "SQL_PREV_WITHIN_GAP conn st ts ?g = None" by (simp add: prev_None)
  note N = next_Some[OF n]
  from N(2) have "site n = st" by (simp add: next_within_gap_def)
  with members N(1) have "row_session (Some n) \<noteq> None" by blast
  from row_session_SomeD[OF this] n pn
  have "find_existing_session_within_gap conn st ts gap_minutes = (session_id n, session_start_ts_local n)"
    by (simp add: find_existing_session_within_gap_def row_session_def)
  with N show "\<exists>n\<in>set conn. next_within_gap st ts ?g n \<and>
       (\<forall>q\<in>set conn. next_within_gap st ts ?g q \<longrightarrow>
          tournament_start_ts_local n \<le> tournament_start_ts_local q) \<and>
       find_existing_session_within_gap conn st ts gap_minutes =
         (session_id n, session_start_ts_local n)" by blast
qed

text \<open>
  The event at 3000 has a predecessor at 0 (3000 s away) and a successor at 3060 (60 s
  away): the predecessor's session is returned. Without the predecessor the successor's is.
\<close>

theorem predecessor_preferred_witness:
  "find_existing_session_within_gap
     [stored_row ''a'' 0 ''s1'' 1, stored_row ''b'' 3060 ''s2'' 1] ''GG'' 3000 60 =
     (Some ''s1'', Some 0) \<and>
   find_existing_session_within_gap
     [stored_row ''b'' 3060 ''s2'' 1] ''GG'' 3000 60 = (Some ''s2'', Some 3060)"
proof -
  have fields: "site (stored_row h t s i) = ''GG''" "session_id (stored_row h t s i) = Some s"
    "session_start_ts_local (stored_row h t s i) = Some t"
    "tournament_start_ts_local (stored_row h t s i) = t" for h t s i
    by (simp_all add: stored_row_def sample_result_def)
  have m1: "\<forall>r\<in>set [stored_row ''a'' 0 ''s1'' 1, stored_row ''b'' 3060 ''s2'' 1].
      site r = ''GG'' \<longrightarrow> row_session (Some r) \<noteq> None"
    by (simp add: row_session_def fields)
  have m2: "\<forall>r\<in>set [stored_row ''b'' 3060 ''s2'' 1].
      site r = ''GG'' \<longrightarrow> row_session (Some r) \<noteq> None"
    by (simp add: row_session_def fields)
  from predecessor_preferred[OF m1, of 3000 60] predecessor_preferred[OF m2, of 3000 60]
  show ?thesis
    by (simp add: prev_within_gap_def next_within_gap_def fields)
qed

text \<open>
  C10. When the lookup finds no session, \<open>ensure_session_and_index\<close> returns the
  identifier from \<open>uuid4\<close>, the event's timestamp and index 1, and the connection holds
  the same rows as before: no index, note or modification time of any row has changed.
\<close>

theorem no_session_no_write:
  assumes "fst (find_existing_session_within_gap conn st ts gap_minutes) = None"
  shows "ensure_session_and_index conn st ts gap_minutes uuid now = ((uuid, Some ts, 1), conn)"
  using assms by (rule find_None_ensure)

text \<open>A stored row with index 3, two hours before the event, stays as it is.\<close>

theorem no_session_no_write_witness:
  "fst (find_existing_session_within_gap [stored_row ''a'' 0 ''s'' 3] ''GG'' 7200 60) = None \<and>
   ensure_session_and_index [stored_row ''a'' 0 ''s'' 3] ''GG'' 7200 60 ''u'' 5 =
     ((''u'', Some 7200, 1), [stored_row ''a'' 0 ''s'' 3])"
proof -
  have h: "fst (find_existing_session_within_gap [stored_row ''a'' 0 ''s'' 3] ''GG'' 7200 60) = None"
    by code_simp
  from no_session_no_write[OF h] h show ?thesis by simp
qed

section \<open>Properties of the parser\<close>

text \<open>
  C9. Whatever the text and the site argument, and whatever the patterns match in the text,
  a result that \<open>parse\<close> returns has the hero name \<open>Hero\<close> and the currency \<open>USD\<close>.
\<close>

theorem parse_hero_and_currency:
  assumes "parse rt site_arg txt = Inr (Some p, why)"
  shows "hero_name p = ''Hero'' \<and> currency p = ''USD''"
  using assms
  by (auto simp: parse_def Let_def split: option.splits prod.splits)

text \<open>
  The sample text lists a player Villain (EUR) and writes the hero in lower case; the
  result carries \<open>Hero\<close> and \<open>USD\<close>.
\<close>

theorem parse_hero_and_currency_witness:
  "parse sample_runtime ''GG'' ''1000'' =
     Inr (Some \<lparr>site = ''GG'', tournament_id = 7, tournament_start_ts_local = 1000,
                hero_name = ''Hero'', tournament_name = Some ''Daily'',
                game_type = Some ''Holdem'', player_count = None, currency = ''USD'',
                buy_in_amount = 3, prize_pool_amount = None, payout_amount = 0,
                profit_amount = - 3, finish_place = None\<rparr>, None) \<and>
   RE_PLACEMENT_LINE sample_runtime ''1000'' = [(''1'', ''Villain (EUR)'', ''$10''), (''2'', ''hero'', ''$0'')]"
proof -
  have e: "parse sample_runtime ''GG'' ''1000'' =
     Inr (Some \<lparr>site = ''GG'', tournament_id = 7, tournament_start_ts_local = 1000,
                hero_name = ''Hero'', tournament_name = Some ''Daily'',
                game_type = Some ''Holdem'', player_count = None, currency = ''USD'',
                buy_in_amount = 3, prize_pool_amount = None, payout_amount = 0,
                profit_amount = - 3, finish_place = None\<rparr>, None)"
    by code_simp
  have r: "RE_PLACEMENT_LINE sample_runtime ''1000'' = [(''1'', ''Villain (EUR)'', ''$10''), (''2'', ''hero'', ''$0'')]"
    by (simp add: sample_runtime_def)
  from parse_hero_and_currency[OF e] e r show ?thesis by simp
qed

section \<open>Properties of the ingestion pipeline\<close>

text \<open>
  C5, as amended. Every file that is processed gets exactly one record in the log, under
  its own name and with one of the five statuses, and a run appends one record per file of
  its listing, in the order of processing. In dry-run the files stay where they are.
  Outside dry-run, when no move and no commit raises, a file that was in the input
  directory ends in the folder of its logged status (processed for inserted, duplicate for
  duplicate, needs-review for needs_review and error), so it has left the input directory.
\<close>

theorem one_record_and_placement:
  "(\<exists>ev. log (process_file rt cfg e f w) = log w @ [ev] \<and> file_name ev = path_name f \<and>
      (\<exists>s. status ev = Some s \<and>
           s \<in> set [''inserted'', ''duplicate'', ''needs_review'', ''error'', ''dry_run''])) \<and>
   (dry_run cfg \<longrightarrow> files (process_file rt cfg e f w) = files w) \<and>
   (\<not> dry_run cfg \<and> files w (path_name f) = Some InputDir \<and>
    (\<forall>d. move_raises e d = None) \<and> commit_raises e = None \<longrightarrow>
      (status (last (log (process_file rt cfg e f w))) = Some ''inserted'' \<and>
         files (process_file rt cfg e f w) (path_name f) = Some ProcessedDir) \<or>
      (status (last (log (process_file rt cfg e f w))) = Some ''duplicate'' \<and>
         files (process_file rt cfg e f w) (path_name f) = Some DuplicateDir) \<or>
      ((status (last (log (process_file rt cfg e f w))) = Some ''needs_review'' \<or>
        status (last (log (process_file rt cfg e f w))) = Some ''error'') \<and>
         files (process_file rt cfg e f w) (path_name f) = Some NeedsReviewDir)) \<and>
   map file_name (drop (length (log w)) (log (run rt cfg fs w))) =
     map (\<lambda>fe. path_name (fst fe)) (file_queue rt cfg w fs) \<and>
   take (length (log w)) (log (run rt cfg fs w)) = log w \<and>
   mset (file_queue rt cfg w fs) = mset fs"
proof -
  have "\<exists>ev. log (process_file rt cfg e f w) = log w @ [ev] \<and> file_name ev = path_name f \<and>
      (\<exists>s. status ev = Some s \<and>
           s \<in> set [''inserted'', ''duplicate'', ''needs_review'', ''error'', ''dry_run''])"
    by (rule process_file_log)
  moreover have "dry_run cfg \<longrightarrow> files (process_file rt cfg e f w) = files w"
    using process_file_dry_run[of cfg rt e f w] by blast
  moreover have "\<not> dry_run cfg \<and> files w (path_name f) = Some InputDir \<and>
    (\<forall>d. move_raises e d = None) \<and> commit_raises e = None \<longrightarrow>
      (status (last (log (process_file rt cfg e f w))) = Some ''inserted'' \<and>
         files (process_file rt cfg e f w) (path_name f) = Some ProcessedDir) \<or>
      (status (last (log (process_file rt cfg e f w))) = Some ''duplicate'' \<and>
         files (process_file rt cfg e f w) (path_name f) = Some DuplicateDir) \<or>
      ((status (last (log (process_file rt cfg e f w))) = Some ''needs_review'' \<or>
        status (last (log (process_file rt cfg e f w))) = Some ''error'') \<and>
         files (process_file rt cfg e f w) (path_name f) = Some NeedsReviewDir)"
    using process_file_placement[of cfg w f e rt] by blast
  moreover have "map file_name (drop (length (log w)) (log (run rt cfg fs w))) =
     map (\<lambda>fe. path_name (fst fe)) (file_queue rt cfg w fs)"
    and "take (length (log w)) (log (run rt cfg fs w)) = log w"
    using run_queue_new_events[of w rt cfg "file_queue rt cfg w fs"] by (simp_all add: run_def)
  moreover have "mset (file_queue rt cfg w fs) = mset fs" by (rule mset_file_queue)
  ultimately show ?thesis by blast
qed

text \<open>
  The claim as stated fails: outside dry-run, a file that parses but cannot be moved
  (both the move to the processed folder and the move to the needs-review folder raise) is
  logged with status error and is still in the input directory.
\<close>

theorem file_left_in_input_directory:
  "\<not> dry_run (sample_config False) \<and>
   files (input_world [''a.txt'']) ''a.txt'' = Some InputDir \<and>
   files (process_file sample_runtime (sample_config False) (moves_fail ''u'')
            (in_file ''a.txt'' ''1000'') (input_world [''a.txt''])) ''a.txt'' = Some InputDir \<and>
   map (\<lambda>ev. (file_name ev, status ev, reason ev))
     (log (process_file sample_runtime (sample_config False) (moves_fail ''u'')
            (in_file ''a.txt'' ''1000'') (input_world [''a.txt'']))) =
     [(''a.txt'', Some ''error'', Some ''move_failed_or_db_error:PermissionError'')]"
  by code_simp

text \<open>A file that parses, with no fault: inserted and in the processed folder; untouched in dry-run.\<close>

theorem one_record_and_placement_witness:
  "files (process_file sample_runtime (sample_config False) (no_faults ''u'')
            (in_file ''a.txt'' ''1000'') (input_world [''a.txt''])) ''a.txt'' = Some ProcessedDir \<and>
   map status (log (process_file sample_runtime (sample_config False) (no_faults ''u'')
            (in_file ''a.txt'' ''1000'') (input_world [''a.txt'']))) = [Some ''inserted''] \<and>
   files (process_file sample_runtime (sample_config True) (no_faults ''u'')
            (in_file ''a.txt'' ''1000'') (input_world [''a.txt''])) = files (input_world [''a.txt''])"
proof -
  let ?w = "input_world [''a.txt'']"
  let ?w' = "process_file sample_runtime (sample_config False) (no_faults ''u'')
            (in_file ''a.txt'' ''1000'') ?w"
  have h: "\<not> dry_run (sample_config False) \<and>
      files ?w (path_name (in_file ''a.txt'' ''1000'')) = Some InputDir \<and>
      (\<forall>d. move_raises (no_faults ''u'') d = None) \<and> commit_raises (no_faults ''u'') = None"
    by (simp add: sample_config_def input_world_def in_file_def no_faults_def)
  have d: "dry_run (sample_config True)" by (simp add: sample_config_def)
  have s: "map status (log ?w') = [Some ''inserted'']" by code_simp
  then have l: "status (last (log ?w')) = Some ''inserted''"
    by (cases "log ?w'") (auto split: if_splits)
  have n: "path_name (in_file ''a.txt'' ''1000'') = ''a.txt''" by (simp add: in_file_def)
  note T1 = one_record_and_placement[of sample_runtime "sample_config False" "no_faults ''u''"
       "in_file ''a.txt'' ''1000''" ?w "[]"]
  note T2 = one_record_and_placement[of sample_runtime "sample_config True" "no_faults ''u''"
       "in_file ''a.txt'' ''1000''" ?w "[]"]
  from T1 h have "(status (last (log ?w')) = Some ''inserted'' \<and> files ?w' ''a.txt'' = Some ProcessedDir) \<or>
      (status (last (log ?w')) = Some ''duplicate'' \<and> files ?w' ''a.txt'' = Some DuplicateDir) \<or>
      ((status (last (log ?w')) = Some ''needs_review'' \<or> status (last (log ?w')) = Some ''error'') \<and>
         files ?w' ''a.txt'' = Some NeedsReviewDir)"
    unfolding n by blast
  with l have "files ?w' ''a.txt'' = Some ProcessedDir" by simp
  moreover from T2 d have "files (process_file sample_runtime (sample_config True) (no_faults ''u'')
            (in_file ''a.txt'' ''1000'') ?w) = files ?w" by blast
  ultimately show ?thesis using s by simp
qed

text \<open>
  C6, as amended. With the dry-run flag set, a full run moves no file and leaves the rows of
  the store as they are, and it appends one record per file of the listing. The record of a
  file has the status \<open>dry_run\<close> exactly when the file can be read, its hash is not
  stored and it parses; otherwise the status is duplicate, needs_review or error.
\<close>

theorem dry_run_no_effects:
  assumes "dry_run cfg"
  shows "files (run rt cfg fs w) = files w \<and> db (run rt cfg fs w) = db w \<and>
     map file_name (drop (length (log w)) (log (run rt cfg fs w))) =
       map (\<lambda>fe. path_name (fst fe)) (file_queue rt cfg w fs) \<and>
     mset (file_queue rt cfg w fs) = mset fs \<and>
     (status (last (log (process_file rt cfg e f w0))) = Some ''dry_run'' \<longleftrightarrow>
        files w0 (path_name f) = Some InputDir \<and> hash_raises e = None \<and> lookup_raises e = None \<and>
        read_raises e = None \<and> \<not> SQL_HASH_EXISTS (db w0) (sha256_file rt (content f)) \<and>
        (\<exists>p why. parse rt (config_site cfg) (content f) = Inr (Some p, why))) \<and>
     (status (last (log (process_file rt cfg e f w0))) = Some ''dry_run'' \<or>
      status (last (log (process_file rt cfg e f w0))) = Some ''duplicate'' \<or>
      status (last (log (process_file rt cfg e f w0))) = Some ''needs_review'' \<or>
      status (last (log (process_file rt cfg e f w0))) = Some ''error'')"
proof -
  have "files (run rt cfg fs w) = files w \<and> db (run rt cfg fs w) = db w"
    unfolding run_def by (rule run_queue_dry_run[OF assms])
  moreover have "map file_name (drop (length (log w)) (log (run rt cfg fs w))) =
       map (\<lambda>fe. path_name (fst fe)) (file_queue rt cfg w fs)"
    using run_queue_new_events[of w rt cfg "file_queue rt cfg w fs"] by (simp add: run_def)
  moreover have "mset (file_queue rt cfg w fs) = mset fs" by (rule mset_file_queue)
  moreover note process_file_dry_run_status[OF assms, of rt e f w0]
  moreover have "status (last (log (process_file rt cfg e f w0))) = Some ''dry_run'' \<or>
      status (last (log (process_file rt cfg e f w0))) = Some ''duplicate'' \<or>
      status (last (log (process_file rt cfg e f w0))) = Some ''needs_review'' \<or>
      status (last (log (process_file rt cfg e f w0))) = Some ''error''"
  proof -
    obtain ev s where ev: "log (process_file rt cfg e f w0) = log w0 @ [ev]"
      and s: "status ev = Some s"
        "s \<in> set [''inserted'', ''duplicate'', ''needs_review'', ''error'', ''dry_run'']"
      using process_file_log[of rt cfg e f w0] by blast
    from ev have l: "last (log (process_file rt cfg e f w0)) = ev" by simp
    have "s \<noteq> ''inserted''"
      using process_file_inserted[of rt cfg e f w0] assms l s(1) by auto
    with s l show ?thesis by auto
  qed
  ultimately show ?thesis by blast
qed

text \<open>
  The claim as stated fails: in dry-run a file without a tournament header is logged with
  status error, not \<open>dry_run\<close>.
\<close>

theorem dry_run_logs_other_statuses:
  "dry_run (sample_config True) \<and>
   map (\<lambda>ev. (file_name ev, status ev, reason ev))
     (log (run sample_runtime (sample_config True) [(in_file ''c.txt'' ''junk'', no_faults ''u'')]
            (input_world [''c.txt'']))) =
     [(''c.txt'', Some ''error'', Some ''parse_error:missing_tournament_header'')]"
  by code_simp

text \<open>A dry-run over a file without a header and a file that parses.\<close>

theorem dry_run_no_effects_witness:
  "files (run sample_runtime (sample_config True)
       [(in_file ''c.txt'' ''junk'', no_faults ''u1''), (in_file ''a.txt'' ''1000'', no_faults ''u2'')]
       (input_world [''a.txt'', ''c.txt''])) = files (input_world [''a.txt'', ''c.txt'']) \<and>
   db (run sample_runtime (sample_config True)
       [(in_file ''c.txt'' ''junk'', no_faults ''u1''), (in_file ''a.txt'' ''1000'', no_faults ''u2'')]
       (input_world [''a.txt'', ''c.txt''])) = [] \<and>
   map (\<lambda>ev. (file_name ev, status ev))
     (log (run sample_runtime (sample_config True)
       [(in_file ''c.txt'' ''junk'', no_faults ''u1''), (in_file ''a.txt'' ''1000'', no_faults ''u2'')]
       (input_world [''a.txt'', ''c.txt'']))) =
     [(''a.txt'', Some ''dry_run''), (''c.txt'', Some ''error'')]"
proof -
  have d: "dry_run (sample_config True)" by (simp add: sample_config_def)
  have db0: "db (input_world [''a.txt'', ''c.txt'']) = []" by (simp add: input_world_def)
  have l: "map (\<lambda>ev. (file_name ev, status ev))
     (log (run sample_runtime (sample_config True)
       [(in_file ''c.txt'' ''junk'', no_faults ''u1''), (in_file ''a.txt'' ''1000'', no_faults ''u2'')]
       (input_world [''a.txt'', ''c.txt'']))) =
     [(''a.txt'', Some ''dry_run''), (''c.txt'', Some ''error'')]"
    by code_simp
  from dry_run_no_effects[OF d, of sample_runtime
      "[(in_file ''c.txt'' ''junk'', no_faults ''u1''), (in_file ''a.txt'' ''1000'', no_faults ''u2'')]"
      "input_world [''a.txt'', ''c.txt'']"] db0 l
  show ?thesis by simp
qed

text \<open>
  C4, as amended. Among the records that a run appends, at most one says inserted for a given
  content hash. A file that is processed after a file with the same content was inserted is
  logged as duplicate (reason \<open>hash_exists\<close>), leaves the rows unchanged and ends in the
  duplicate folder, provided that hashing it, the hash lookup and its move do not raise. A
  uniqueness violation that the INSERT raises is rolled back, and the file is moved to the
  duplicate folder and logged as duplicate (reason \<open>unique_conflict\<close>), provided that
  this move does not raise. Neither outcome stops the batch: the run appends one record
  for every file of its listing.
\<close>

theorem duplicates_inserted_once:
  "length (filter (\<lambda>ev. status ev = Some ''inserted'' \<and> file_hash ev = Some h)
      (drop (length (log w)) (log (run rt cfg fs w)))) \<le> 1 \<and>
   (file_queue rt cfg w fs = q1 @ fe1 # q2 @ fe2 # q3 \<and>
    status (last (log (process_file rt cfg (snd fe1) (fst fe1) (run_queue rt cfg q1 w))))
      = Some ''inserted'' \<and>
    sha256_file rt (content (fst fe2)) = sha256_file rt (content (fst fe1)) \<and>
    files w (path_name (fst fe2)) = Some InputDir \<and>
    path_name (fst fe2) \<notin> set (map (\<lambda>fe. path_name (fst fe)) (q1 @ fe1 # q2)) \<and>
    hash_raises (snd fe2) = None \<and> lookup_raises (snd fe2) = None \<and>
    move_raises (snd fe2) DuplicateDir = None \<longrightarrow>
      status (last (log (process_file rt cfg (snd fe2) (fst fe2)
                 (run_queue rt cfg (q1 @ fe1 # q2) w)))) = Some ''duplicate'' \<and>
      reason (last (log (process_file rt cfg (snd fe2) (fst fe2)
                 (run_queue rt cfg (q1 @ fe1 # q2) w)))) = Some ''hash_exists'' \<and>
      db (process_file rt cfg (snd fe2) (fst fe2) (run_queue rt cfg (q1 @ fe1 # q2) w))
        = db (run_queue rt cfg (q1 @ fe1 # q2) w) \<and>
      files (run rt cfg fs w) (path_name (fst fe2)) = Some DuplicateDir) \<and>
   (files w0 (path_name f) = Some InputDir \<and>
    hash_raises e = None \<and> lookup_raises e = None \<and> read_raises e = None \<and>
    \<not> SQL_HASH_EXISTS (db w0) (sha256_file rt (content f)) \<and>
    parse rt (config_site cfg) (content f) = Inr (Some p, why) \<and>
    \<not> dry_run cfg \<and> begin_raises e = None \<and> statement_raises e = Some IntegrityError \<and>
    move_raises e DuplicateDir = None \<longrightarrow>
      status (last (log (process_file rt cfg e f w0))) = Some ''duplicate'' \<and>
      reason (last (log (process_file rt cfg e f w0))) = Some ''unique_conflict'' \<and>
      db (process_file rt cfg e f w0) = db w0 \<and>
      files (process_file rt cfg e f w0) = (files w0)(path_name f \<mapsto> DuplicateDir)) \<and>
   map file_name (drop (length (log w)) (log (run rt cfg fs w))) =
     map (\<lambda>fe. path_name (fst fe)) (file_queue rt cfg w fs) \<and>
   mset (file_queue rt cfg w fs) = mset fs"
proof (intro conjI)
  show "length (filter (\<lambda>ev. status ev = Some ''inserted'' \<and> file_hash ev = Some h)
      (drop (length (log w)) (log (run rt cfg fs w)))) \<le> 1"
    using run_queue_inserted_once[of h w rt cfg "file_queue rt cfg w fs"]
    by (simp add: run_def split: if_splits)
  show "map file_name (drop (length (log w)) (log (run rt cfg fs w))) =
     map (\<lambda>fe. path_name (fst fe)) (file_queue rt cfg w fs)"
    using run_queue_new_events[of w rt cfg "file_queue rt cfg w fs"] by (simp add: run_def)
  show "mset (file_queue rt cfg w fs) = mset fs" by (rule mset_file_queue)
  show "files w0 (path_name f) = Some InputDir \<and>
    hash_raises e = None \<and> lookup_raises e = None \<and> read_raises e = None \<and>
    \<not> SQL_HASH_EXISTS (db w0) (sha256_file rt (content f)) \<and>
    parse rt (config_site cfg) (content f) = Inr (Some p, why) \<and>
    \<not> dry_run cfg \<and> begin_raises e = None \<and> statement_raises e = Some IntegrityError \<and>
    move_raises e DuplicateDir = None \<longrightarrow>
      status (last (log (process_file rt cfg e f w0))) = Some ''duplicate'' \<and>
      reason (last (log (process_file rt cfg e f w0))) = Some ''unique_conflict'' \<and>
      db (process_file rt cfg e f w0) = db w0 \<and>
      files (process_file rt cfg e f w0) = (files w0)(path_name f \<mapsto> DuplicateDir)"
    using process_file_unique_conflict[of w0 f e rt cfg p why] by blast
  show "file_queue rt cfg w fs = q1 @ fe1 # q2 @ fe2 # q3 \<and>
    status (last (log (process_file rt cfg (snd fe1) (fst fe1) (run_queue rt cfg q1 w))))
      = Some ''inserted'' \<and>
    sha256_file rt (content (fst fe2)) = sha256_file rt (content (fst fe1)) \<and>
    files w (path_name (fst fe2)) = Some InputDir \<and>
    path_name (fst fe2) \<notin> set (map (\<lambda>fe. path_name (fst fe)) (q1 @ fe1 # q2)) \<and>
    hash_raises (snd fe2) = None \<and> lookup_raises (snd fe2) = None \<and>
    move_raises (snd fe2) DuplicateDir = None \<longrightarrow>
      status (last (log (process_file rt cfg (snd fe2) (fst fe2)
                 (run_queue rt cfg (q1 @ fe1 # q2) w)))) = Some ''duplicate'' \<and>
      reason (last (log (process_file rt cfg (snd fe2) (fst fe2)
                 (run_queue rt cfg (q1 @ fe1 # q2) w)))) = Some ''hash_exists'' \<and>
      db (process_file rt cfg (snd fe2) (fst fe2) (run_queue rt cfg (q1 @ fe1 # q2) w))
        = db (run_queue rt cfg (q1 @ fe1 # q2) w) \<and>
      files (run rt cfg fs w) (path_name (fst fe2)) = Some DuplicateDir"
  proof
    assume A: "file_queue rt cfg w fs = q1 @ fe1 # q2 @ fe2 # q3 \<and>
      status (last (log (process_file rt cfg (snd fe1) (fst fe1) (run_queue rt cfg q1 w))))
        = Some ''inserted'' \<and>
      sha256_file rt (content (fst fe2)) = sha256_file rt (content (fst fe1)) \<and>
      files w (path_name (fst fe2)) = Some InputDir \<and>
      path_name (fst fe2) \<notin> set (map (\<lambda>fe. path_name (fst fe)) (q1 @ fe1 # q2)) \<and>
      hash_raises (snd fe2) = None \<and> lookup_raises (snd fe2) = None \<and>
      move_raises (snd fe2) DuplicateDir = None"
    let ?wa = "process_file rt cfg (snd fe1) (fst fe1) (run_queue rt cfg q1 w)"
    let ?w2 = "run_queue rt cfg (q1 @ fe1 # q2) w"
    let ?w2' = "process_file rt cfg (snd fe2) (fst fe2) ?w2"
    let ?h = "sha256_file rt (content (fst fe2))"
    from A have ins: "status (last (log ?wa)) = Some ''inserted''" by simp
    note I = process_file_inserted[OF ins]
    from I A have nd: "\<not> dry_run cfg" and st: "SQL_HASH_EXISTS (db ?wa) ?h" by simp_all
    have w2: "?w2 = run_queue rt cfg q2 ?wa" by (simp add: run_queue_append)
    have st2: "SQL_HASH_EXISTS (db ?w2) ?h"
      unfolding w2 using st by (rule run_queue_hash_mono)
    have pres: "files ?w2 (path_name (fst fe2)) = Some InputDir"
      using A run_queue_frame[of "path_name (fst fe2)" "q1 @ fe1 # q2" rt cfg w] by simp
    from A have nf: "hash_raises (snd fe2) = None" "lookup_raises (snd fe2) = None"
      "move_raises (snd fe2) DuplicateDir = None" by simp_all
    note D = process_file_stored_hash[OF st2 pres nf(1) nf(2) nd nf(3)]
    have fin: "run rt cfg fs w = run_queue rt cfg q3 ?w2'"
    proof -
      from A have "file_queue rt cfg w fs = (q1 @ fe1 # q2) @ fe2 # q3" by simp
      then show ?thesis unfolding run_def by (simp only: run_queue_append run_queue.simps)
    qed
    from D have "files ?w2' (path_name (fst fe2)) = Some DuplicateDir" by simp
    then have "files (run rt cfg fs w) (path_name (fst fe2)) = Some DuplicateDir"
      unfolding fin using run_queue_stable[of ?w2' "path_name (fst fe2)" rt cfg q3] by simp
    with D show "status (last (log ?w2')) = Some ''duplicate'' \<and>
      reason (last (log ?w2')) = Some ''hash_exists'' \<and>
      db ?w2' = db ?w2 \<and>
      files (run rt cfg fs w) (path_name (fst fe2)) = Some DuplicateDir" by simp
  qed
qed

text \<open>
  The claim as stated fails. Two files with the same content that has no tournament header
  are both logged with status error and filed in the needs-review folder. And a file that
  follows an inserted file with the same content, but whose move into the duplicate folder
  raises, is logged with status error by the outer handler and filed in the needs-review
  folder.
\<close>

theorem same_content_not_duplicate:
  "map (\<lambda>ev. (file_name ev, file_hash ev, status ev))
     (log (run sample_runtime (sample_config False)
        [(in_file ''a.txt'' ''junk'', no_faults ''u1''), (in_file ''b.txt'' ''junk'', no_faults ''u2'')]
        (input_world [''a.txt'', ''b.txt'']))) =
     [(''a.txt'', Some ''junk'', Some ''error''), (''b.txt'', Some ''junk'', Some ''error'')] \<and>
   files (run sample_runtime (sample_config False)
        [(in_file ''a.txt'' ''junk'', no_faults ''u1''), (in_file ''b.txt'' ''junk'', no_faults ''u2'')]
        (input_world [''a.txt'', ''b.txt''])) ''b.txt'' = Some NeedsReviewDir \<and>
   map (\<lambda>ev. (file_name ev, file_hash ev, status ev, reason ev))
     (log (run sample_runtime (sample_config False)
        [(in_file ''a.txt'' ''1000'', no_faults ''u1''),
         (in_file ''b.txt'' ''1000'', duplicate_move_fails ''u2'')]
        (input_world [''a.txt'', ''b.txt'']))) =
     [(''a.txt'', Some ''1000'', Some ''inserted'', Some ''ok''),
      (''b.txt'', Some ''1000'', Some ''error'', Some ''fatal:PermissionError'')] \<and>
   files (run sample_runtime (sample_config False)
        [(in_file ''a.txt'' ''1000'', no_faults ''u1''),
         (in_file ''b.txt'' ''1000'', duplicate_move_fails ''u2'')]
        (input_world [''a.txt'', ''b.txt''])) ''b.txt'' = Some NeedsReviewDir"
  by code_simp

text \<open>
  Two files with the same content and no fault: the second is a duplicate. One file whose
  INSERT raises a uniqueness violation: duplicate by \<open>unique_conflict\<close>.
\<close>

theorem duplicates_inserted_once_witness:
  "status (last (log (process_file sample_runtime (sample_config False) (no_faults ''u2'')
       (in_file ''b.txt'' ''1000'')
       (run_queue sample_runtime (sample_config False)
          [(in_file ''a.txt'' ''1000'', no_faults ''u1'')] (input_world [''a.txt'', ''b.txt'']))))) =
     Some ''duplicate'' \<and>
   files (run sample_runtime (sample_config False)
        [(in_file ''a.txt'' ''1000'', no_faults ''u1''), (in_file ''b.txt'' ''1000'', no_faults ''u2'')]
        (input_world [''a.txt'', ''b.txt''])) ''b.txt'' = Some DuplicateDir \<and>
   status (last (log (process_file sample_runtime (sample_config False) (insert_conflicts ''u'')
       (in_file ''a.txt'' ''1000'') (input_world [''a.txt'', ''b.txt''])))) = Some ''duplicate'' \<and>
   reason (last (log (process_file sample_runtime (sample_config False) (insert_conflicts ''u'')
       (in_file ''a.txt'' ''1000'') (input_world [''a.txt'', ''b.txt''])))) = Some ''unique_conflict''"
proof -
  let ?cfg = "sample_config False"
  let ?w = "input_world [''a.txt'', ''b.txt'']"
  let ?a = "(in_file ''a.txt'' ''1000'', no_faults ''u1'')"
  let ?b = "(in_file ''b.txt'' ''1000'', no_faults ''u2'')"
  let ?P = "\<lparr>site = ''GG'', tournament_id = 7, tournament_start_ts_local = 1000,
              hero_name = ''Hero'', tournament_name = Some ''Daily'',
              game_type = Some ''Holdem'', player_count = None, currency = ''USD'',
              buy_in_amount = 3::int, prize_pool_amount = None, payout_amount = 0,
              profit_amount = - 3, finish_place = None\<rparr>"
  have pa: "prescan sample_runtime ?cfg ?w ?a = Some 1000" by code_simp
  have pb: "prescan sample_runtime ?cfg ?w ?b = Some 1000" by code_simp
  have q: "file_queue sample_runtime ?cfg ?w [?a, ?b] = [] @ ?a # [] @ ?b # []"
    by (simp add: file_queue_def pa pb)
  have ins: "status (last (log (process_file sample_runtime ?cfg (snd ?a) (fst ?a)
        (run_queue sample_runtime ?cfg [] ?w)))) = Some ''inserted''"
    by code_simp
  have misc: "sha256_file sample_runtime (content (fst ?b)) = sha256_file sample_runtime (content (fst ?a))"
    "files ?w (path_name (fst ?b)) = Some InputDir"
    "path_name (fst ?b) \<notin> set (map (\<lambda>fe. path_name (fst fe)) ([] @ ?a # []))"
    "hash_raises (snd ?b) = None" "lookup_raises (snd ?b) = None"
    "move_raises (snd ?b) DuplicateDir = None"
    by (simp_all add: in_file_def input_world_def no_faults_def)
  have p: "parse sample_runtime (config_site ?cfg) (content (in_file ''a.txt'' ''1000'')) = Inr (Some ?P, None)"
    by code_simp
  have c: "files ?w (path_name (in_file ''a.txt'' ''1000'')) = Some InputDir"
    "hash_raises (insert_conflicts ''u'') = None" "lookup_raises (insert_conflicts ''u'') = None"
    "read_raises (insert_conflicts ''u'') = None"
    "\<not> SQL_HASH_EXISTS (db ?w) (sha256_file sample_runtime (content (in_file ''a.txt'' ''1000'')))"
    "\<not> dry_run ?cfg" "begin_raises (insert_conflicts ''u'') = None"
    "statement_raises (insert_conflicts ''u'') = Some IntegrityError"
    "move_raises (insert_conflicts ''u'') DuplicateDir = None"
    by (simp_all add: in_file_def input_world_def no_faults_def insert_conflicts_def
        sample_config_def SQL_HASH_EXISTS_def)
  note T = duplicates_inserted_once[of _ ?w sample_runtime ?cfg "[?a, ?b]" "[]" ?a "[]" ?b "[]"
      ?w "in_file ''a.txt'' ''1000''" "insert_conflicts ''u''" ?P None]
  from T q ins misc have
    "status (last (log (process_file sample_runtime ?cfg (snd ?b) (fst ?b)
        (run_queue sample_runtime ?cfg ([] @ ?a # []) ?w)))) = Some ''duplicate'' \<and>
     files (run sample_runtime ?cfg [?a, ?b] ?w) (path_name (fst ?b)) = Some DuplicateDir"
    by blast
  moreover from T p c have
    "status (last (log (process_file sample_runtime ?cfg (insert_conflicts ''u'')
       (in_file ''a.txt'' ''1000'') ?w))) = Some ''duplicate'' \<and>
     reason (last (log (process_file sample_runtime ?cfg (insert_conflicts ''u'')
       (in_file ''a.txt'' ''1000'') ?w))) = Some ''unique_conflict''"
    by blast
  ultimately show ?thesis by (simp add: in_file_def)
qed


end
